theory Spec2Isabelle
  imports Complex_Main "HOL-Library.AList" "HOL-Library.Sublist"
begin

section \<open>Values, nodes, edges and patterns\<close>

text \<open>
  The pattern matcher of \<^verbatim>\<open>src/lang/pattern-matcher.ts\<close>. JavaScript numbers are
  only ever compared by \<^verbatim>\<open>===\<close> here, so a number is NaN, an infinity or a finite
  rational (every finite double is one; the two zeros are \<^verbatim>\<open>===\<close>).
\<close>

datatype jsnum = NaN | PosInfinity | NegInfinity | Finite rat

text \<open>
  A property value: a scalar or an array. The pattern types only allow
  \<^verbatim>\<open>string | number | boolean | null\<close> as a required value, the code takes
  \<^verbatim>\<open>any\<close> and tests \<^verbatim>\<open>Array.isArray\<close>, so both sides are values here.
\<close>

datatype jsval = JNull | JBool bool | JNum jsnum | JStr string | JArr "jsval list"

text \<open>
  \<^verbatim>\<open>parseFloat\<close>, \<^verbatim>\<open>Number.prototype.toString\<close> and
  \<^verbatim>\<open>String.prototype.toLowerCase\<close> are built-ins of the language: they are
  parameters of the model, and every theorem below holds for whatever functions they
  are. The first two are used only under \<^verbatim>\<open>enableTypeCoercion\<close>.
\<close>

record js_builtins =
  parseFloat :: "string \<Rightarrow> jsnum"
  numberToString :: "jsnum \<Rightarrow> string"
  toLowerCase :: "string \<Rightarrow> string"

type_synonym props = "(string \<times> jsval) list"

text \<open>
  Modelled from the spec: the classes Node, Edge, Path and Graph of \<^verbatim>\<open>@/graph\<close>
  are imported by the matcher and are not among the sources. A node has an identifier, one
  primary label and a property bag (absent when \<^verbatim>\<open>data\<close> is not an object); an
  edge has a source id, a target id, a label and a property bag.
\<close>

record node =
  node_id :: string
  node_label :: string
  node_data :: "props option"

record edge =
  source :: string
  target :: string
  edge_label :: string
  edge_data :: "props option"

record path =
  nodes :: "node list"
  edges :: "edge list"

record graph =
  graph_nodes :: "node list"
  graph_edges :: "edge list"

datatype direction = Outgoing | Incoming | Both

record node_pattern =
  np_variable :: "string option"
  np_labels :: "string list"
  np_properties :: props

record relationship_pattern =
  rp_variable :: "string option"
  rp_type :: "string option"
  rp_properties :: props
  rp_direction :: direction
  rp_minHops :: "nat option"
  rp_maxHops :: "nat option"

record segment =
  seg_relationship :: relationship_pattern
  seg_node :: node_pattern

record path_pattern =
  pp_start :: node_pattern
  pp_segments :: "segment list"

text \<open>
  \<^verbatim>\<open>PatternMatcherOptions\<close>: every option may be left out. Hop bounds, the depth
  and the number of results are counts: natural numbers, as the hop specification of
  the rule grammar gives them.
\<close>

record matcher_options_input =
  in_caseSensitiveLabels :: "bool option"
  in_enableTypeCoercion :: "bool option"
  in_maxPathDepth :: "nat option"
  in_maxPathResults :: "nat option"

record matcher_options =
  caseSensitiveLabels :: bool
  enableTypeCoercion :: bool
  maxPathDepth :: nat
  maxPathResults :: nat

text \<open>The matcher object: its options and its two private caches.\<close>

record matcher =
  options :: matcher_options
  labelCache :: "string \<rightharpoonup> string list"
  typeCache :: "string \<rightharpoonup> (string \<times> string \<times> string) list"

text \<open>The constructor: \<^verbatim>\<open>options.x ?? default\<close>, and two empty caches.\<close>

definition PatternMatcher :: "matcher_options_input \<Rightarrow> matcher" where
  "PatternMatcher opts =
     \<lparr>options =
        \<lparr>caseSensitiveLabels = (case in_caseSensitiveLabels opts of None \<Rightarrow> False | Some b \<Rightarrow> b),
         enableTypeCoercion = (case in_enableTypeCoercion opts of None \<Rightarrow> False | Some b \<Rightarrow> b),
         maxPathDepth = (case in_maxPathDepth opts of None \<Rightarrow> 10 | Some d \<Rightarrow> d),
         maxPathResults = (case in_maxPathResults opts of None \<Rightarrow> 1000 | Some r \<Rightarrow> r)\<rparr>,
      labelCache = Map.empty,
      typeCache = Map.empty\<rparr>"

definition clearCache :: "matcher \<Rightarrow> matcher" where
  "clearCache m = m\<lparr>labelCache := Map.empty, typeCache := Map.empty\<rparr>"

section \<open>Strings and strict equality\<close>

text \<open>\<^verbatim>\<open>Array.prototype.join\<close>.\<close>

fun join :: "string \<Rightarrow> string list \<Rightarrow> string" where
  "join sep [] = []"
| "join sep [x] = x"
| "join sep (x # y # ys) = x @ sep @ join sep (y # ys)"

text \<open>
  \<^verbatim>\<open>===\<close>: NaN equals nothing; an array is an object, compared by reference, and an
  array stored in the graph is never the object a pattern holds.
\<close>

fun strictEq :: "jsval \<Rightarrow> jsval \<Rightarrow> bool" where
  "strictEq JNull JNull = True"
| "strictEq (JBool a) (JBool b) = (a = b)"
| "strictEq (JNum a) (JNum b) = (a = b \<and> a \<noteq> NaN)"
| "strictEq (JStr a) (JStr b) = (a = b)"
| "strictEq _ _ = False"

fun isArray :: "jsval \<Rightarrow> bool" where
  "isArray (JArr _) = True"
| "isArray _ = False"

text \<open>\<^verbatim>\<open>String(actual)\<close>; an array joins its elements with a comma, null as the empty string.\<close>

fun jsString :: "js_builtins \<Rightarrow> jsval \<Rightarrow> string" where
  "jsString js JNull = ''null''"
| "jsString js (JBool b) = (if b then ''true'' else ''false'')"
| "jsString js (JNum n) = numberToString js n"
| "jsString js (JStr s) = s"
| "jsString js (JArr xs) = join '','' (map (\<lambda>x. if x = JNull then [] else jsString js x) xs)"

text \<open>A value that JavaScript takes as true in a condition, for an optional string.\<close>

fun truthy :: "string option \<Rightarrow> bool" where
  "truthy None = False"
| "truthy (Some s) = (s \<noteq> [])"

section \<open>Matching values, labels and properties\<close>

text \<open>
  The block of \<^verbatim>\<open>valuesMatch\<close> under \<^verbatim>\<open>if (this.options.enableTypeCoercion)\<close>:
  \<open>Some b\<close> where it returns \<open>b\<close>, \<open>None\<close> where it falls through.
\<close>

definition typeCoercion :: "js_builtins \<Rightarrow> jsval \<Rightarrow> jsval \<Rightarrow> bool option" where
  "typeCoercion js actual expected =
     (case expected of
        JNum e \<Rightarrow> (case actual of JStr a \<Rightarrow> Some (strictEq (JNum (parseFloat js a)) (JNum e)) | _ \<Rightarrow> None)
      | JStr e \<Rightarrow> (case actual of JNum a \<Rightarrow> Some (numberToString js a = e) | _ \<Rightarrow> None)
      | JBool e \<Rightarrow>
          (let actualStr = toLowerCase js (jsString js actual) in
           if e \<and> (strictEq actual (JNum (Finite 1)) \<or> actualStr = ''true'') then Some True
           else if \<not> e \<and> (strictEq actual (JNum (Finite 0)) \<or> actualStr = ''false'') then Some True
           else None)
      | _ \<Rightarrow> None)"

fun valuesMatch :: "js_builtins \<Rightarrow> matcher_options \<Rightarrow> jsval \<Rightarrow> jsval \<Rightarrow> bool" where
  "valuesMatch js opts actual expected =
     (if strictEq actual expected then True
      else (case (if enableTypeCoercion opts then typeCoercion js actual expected else None) of
              Some b \<Rightarrow> b
            | None \<Rightarrow>
                (case actual of
                   JArr items \<Rightarrow>
                     (if isArray expected then False
                      else list_ex (\<lambda>item. valuesMatch js opts item expected) items)
                 | _ \<Rightarrow> False)))"

declare valuesMatch.simps [simp del]

definition normalizeLabel :: "js_builtins \<Rightarrow> matcher_options \<Rightarrow> string \<Rightarrow> string" where
  "normalizeLabel js opts label = (if caseSensitiveLabels opts then label else toLowerCase js label)"

definition getNodeLabels :: "node \<Rightarrow> string list" where
  "getNodeLabels n = [node_label n]"

definition labelMatches :: "js_builtins \<Rightarrow> matcher_options \<Rightarrow> string list \<Rightarrow> string \<Rightarrow> bool" where
  "labelMatches js opts nodeLabels requiredLabel =
     (let normalizedRequired = normalizeLabel js opts requiredLabel in
      list_ex (\<lambda>label. normalizeLabel js opts label = normalizedRequired) nodeLabels)"

definition typeMatches :: "js_builtins \<Rightarrow> matcher_options \<Rightarrow> string \<Rightarrow> string \<Rightarrow> bool" where
  "typeMatches js opts relationshipType requiredType =
     (normalizeLabel js opts relationshipType = normalizeLabel js opts requiredType)"

text \<open>
  The loop over \<^verbatim>\<open>Object.entries(requiredProps)\<close> returns false at the first entry
  that fails and true at its end.
\<close>

definition nodePropertiesMatch :: "js_builtins \<Rightarrow> matcher_options \<Rightarrow> node \<Rightarrow> props \<Rightarrow> bool" where
  "nodePropertiesMatch js opts n requiredProps =
     (case node_data n of
        None \<Rightarrow> requiredProps = []
      | Some nodeData \<Rightarrow>
          list_all (\<lambda>(key, requiredValue).
              if key = ''id'' then strictEq (JStr (node_id n)) requiredValue
              else (case map_of nodeData key of
                      None \<Rightarrow> False
                    | Some actual \<Rightarrow> valuesMatch js opts actual requiredValue))
            requiredProps)"

definition edgePropertiesMatch :: "js_builtins \<Rightarrow> matcher_options \<Rightarrow> edge \<Rightarrow> props \<Rightarrow> bool" where
  "edgePropertiesMatch js opts e requiredProps =
     (case edge_data e of
        None \<Rightarrow> requiredProps = []
      | Some edgeData \<Rightarrow>
          list_all (\<lambda>(key, requiredValue).
              (case map_of edgeData key of
                 None \<Rightarrow> False
               | Some actual \<Rightarrow> valuesMatch js opts actual requiredValue))
            requiredProps)"

definition matchesNodePattern :: "js_builtins \<Rightarrow> matcher_options \<Rightarrow> node \<Rightarrow> node_pattern \<Rightarrow> bool" where
  "matchesNodePattern js opts n pattern =
     (if np_labels pattern \<noteq> [] \<and>
         \<not> list_all (\<lambda>requiredLabel. labelMatches js opts (getNodeLabels n) requiredLabel)
             (np_labels pattern)
      then False
      else if np_properties pattern \<noteq> [] then nodePropertiesMatch js opts n (np_properties pattern)
      else True)"

section \<open>The graph store\<close>

text \<open>
  Modelled from the spec: \<^verbatim>\<open>getNode\<close>, \<^verbatim>\<open>getEdge\<close>, \<^verbatim>\<open>findNodes\<close>,
  \<^verbatim>\<open>findEdges\<close> (a linear scan returning a list) and \<^verbatim>\<open>getEdgesForNode\<close>
  (the incident edges: outgoing have the node as source, incoming as target) of the
  Graph class, which is not among the sources.
\<close>

definition getNode :: "graph \<Rightarrow> string \<Rightarrow> node option" where
  "getNode g i = find (\<lambda>n. node_id n = i) (graph_nodes g)"

definition getEdge :: "graph \<Rightarrow> string \<Rightarrow> string \<Rightarrow> string \<Rightarrow> edge option" where
  "getEdge g s t l = find (\<lambda>e. source e = s \<and> target e = t \<and> edge_label e = l) (graph_edges g)"

definition findNodes :: "graph \<Rightarrow> (node \<Rightarrow> bool) \<Rightarrow> node list" where
  "findNodes g pred = filter pred (graph_nodes g)"

definition findEdges :: "graph \<Rightarrow> (edge \<Rightarrow> bool) \<Rightarrow> edge list" where
  "findEdges g pred = filter pred (graph_edges g)"

fun getEdgesForNode :: "graph \<Rightarrow> string \<Rightarrow> direction \<Rightarrow> edge list" where
  "getEdgesForNode g i Outgoing = filter (\<lambda>e. source e = i) (graph_edges g)"
| "getEdgesForNode g i Incoming = filter (\<lambda>e. target e = i) (graph_edges g)"
| "getEdgesForNode g i Both = filter (\<lambda>e. source e = i \<or> target e = i) (graph_edges g)"

section \<open>Finding nodes\<close>

text \<open>
  \<^verbatim>\<open>getNodesByLabel\<close> reads the label cache and fills it on a miss (an empty array is
  not a miss); the matcher is returned with its cache.
\<close>

definition getNodesByLabel :: "js_builtins \<Rightarrow> matcher \<Rightarrow> graph \<Rightarrow> string \<Rightarrow> node list \<times> matcher" where
  "getNodesByLabel js m g label =
     (let normalizedLabel = normalizeLabel js (options m) label in
      (case labelCache m normalizedLabel of
         Some nodeIds \<Rightarrow> (List.map_filter (getNode g) nodeIds, m)
       | None \<Rightarrow>
           (let matchingNodes = findNodes g (\<lambda>n. labelMatches js (options m) (getNodeLabels n) label);
                nodeIds = map node_id matchingNodes
            in (List.map_filter (getNode g) nodeIds,
                m\<lparr>labelCache := (labelCache m)(normalizedLabel \<mapsto> nodeIds)\<rparr>))))"

definition findMatchingNodes :: "js_builtins \<Rightarrow> matcher \<Rightarrow> graph \<Rightarrow> node_pattern \<Rightarrow> node list \<times> matcher" where
  "findMatchingNodes js m g pattern =
     (case np_labels pattern of
        l # _ \<Rightarrow>
          (case getNodesByLabel js m g l of
             (labeledNodes, m') \<Rightarrow>
               (filter (\<lambda>n. matchesNodePattern js (options m) n pattern) labeledNodes, m'))
      | [] \<Rightarrow> (findNodes g (\<lambda>n. matchesNodePattern js (options m) n pattern), m))"

section \<open>Matching relationships\<close>

definition hasCorrectDirection :: "edge \<Rightarrow> relationship_pattern \<Rightarrow> node \<Rightarrow> node \<Rightarrow> bool" where
  "hasCorrectDirection e pattern sourceNode targetNode =
     (case rp_direction pattern of
        Outgoing \<Rightarrow> source e = node_id sourceNode \<and> target e = node_id targetNode
      | Incoming \<Rightarrow> target e = node_id sourceNode \<and> source e = node_id targetNode
      | Both \<Rightarrow> True)"

text \<open>The two nodes are optional parameters; an empty type is no type.\<close>

definition matchesRelationshipPattern ::
  "js_builtins \<Rightarrow> matcher_options \<Rightarrow> edge \<Rightarrow> relationship_pattern \<Rightarrow> node option \<Rightarrow> node option \<Rightarrow> bool" where
  "matchesRelationshipPattern js opts e pattern sourceNode targetNode =
     (if (case rp_type pattern of
            Some ty \<Rightarrow> ty \<noteq> [] \<and> \<not> typeMatches js opts (edge_label e) ty
          | None \<Rightarrow> False)
      then False
      else if (case (sourceNode, targetNode) of
                 (Some s, Some t) \<Rightarrow>
                   rp_direction pattern \<noteq> Both \<and> \<not> hasCorrectDirection e pattern s t
               | _ \<Rightarrow> False)
      then False
      else if rp_properties pattern \<noteq> [] \<and> \<not> edgePropertiesMatch js opts e (rp_properties pattern)
      then False
      else True)"

definition getEndpointNodes :: "graph \<Rightarrow> edge \<Rightarrow> node option \<times> node option" where
  "getEndpointNodes g e = (getNode g (source e), getNode g (target e))"

definition filterEdgesByPattern ::
  "js_builtins \<Rightarrow> matcher_options \<Rightarrow> graph \<Rightarrow> edge list \<Rightarrow> relationship_pattern \<Rightarrow> edge list" where
  "filterEdgesByPattern js opts g es pattern =
     filter (\<lambda>e. case getEndpointNodes g e of
                    (Some sourceNode, Some targetNode) \<Rightarrow>
                      matchesRelationshipPattern js opts e pattern (Some sourceNode) (Some targetNode)
                  | _ \<Rightarrow> False) es"

definition getRelationshipsByType :: "js_builtins \<Rightarrow> matcher \<Rightarrow> graph \<Rightarrow> string \<Rightarrow> edge list \<times> matcher" where
  "getRelationshipsByType js m g ty =
     (let normalizedType = normalizeLabel js (options m) ty in
      (case typeCache m normalizedType of
         Some edgeIdentifiers \<Rightarrow>
           (List.map_filter (\<lambda>(s, t, l). getEdge g s t l) edgeIdentifiers, m)
       | None \<Rightarrow>
           (let matchingEdges = findEdges g (\<lambda>e. typeMatches js (options m) (edge_label e) ty);
                edgeIdentifiers = map (\<lambda>e. (source e, target e, edge_label e)) matchingEdges
            in (List.map_filter (\<lambda>(s, t, l). getEdge g s t l) edgeIdentifiers,
                m\<lparr>typeCache := (typeCache m)(normalizedType \<mapsto> edgeIdentifiers)\<rparr>))))"

definition findMatchingRelationships ::
  "js_builtins \<Rightarrow> matcher \<Rightarrow> graph \<Rightarrow> relationship_pattern \<Rightarrow> string option \<Rightarrow> edge list \<times> matcher" where
  "findMatchingRelationships js m g pattern sourceId =
     (if truthy sourceId then
        (case sourceId of
           None \<Rightarrow> ([], m)
         | Some sid \<Rightarrow>
            (case getNode g sid of
               None \<Rightarrow> ([], m)
             | Some sourceNode \<Rightarrow>
                 (filter (\<lambda>e.
                     if (case rp_type pattern of
                           Some ty \<Rightarrow> ty \<noteq> [] \<and> \<not> typeMatches js (options m) (edge_label e) ty
                         | None \<Rightarrow> False)
                     then False
                     else (case getEndpointNodes g e of
                             (Some edgeSourceNode, Some edgeTargetNode) \<Rightarrow>
                               if rp_direction pattern = Incoming \<and> target e = sid
                               then matchesRelationshipPattern js (options m) e
                                      (pattern\<lparr>rp_direction := Outgoing\<rparr>)
                                      (Some edgeSourceNode) (Some edgeTargetNode)
                               else matchesRelationshipPattern js (options m) e pattern
                                      (Some edgeSourceNode) (Some edgeTargetNode)
                           | _ \<Rightarrow> False))
                    (getEdgesForNode g sid (rp_direction pattern)), m)))
      else (case (if truthy (rp_type pattern) then rp_type pattern else None) of
              Some ty \<Rightarrow>
                (case getRelationshipsByType js m g ty of
                   (typedEdges, m') \<Rightarrow>
                     (filterEdgesByPattern js (options m) g typedEdges (pattern\<lparr>rp_type := None\<rparr>), m'))
            | None \<Rightarrow>
                (findEdges g (\<lambda>e. case getEndpointNodes g e of
                                     (Some sourceNode, Some targetNode) \<Rightarrow>
                                       matchesRelationshipPattern js (options m) e pattern
                                         (Some sourceNode) (Some targetNode)
                                   | _ \<Rightarrow> False), m)))"

section \<open>Enriching a pattern with bindings\<close>

text \<open>
  Modelled from the spec: the BindingContext of \<^verbatim>\<open>./condition-evaluator\<close>, which is
  not among the sources: a mapping from a variable name to a bound value (a node, an
  edge, a path or a scalar), read with \<^verbatim>\<open>has\<close> and \<^verbatim>\<open>get\<close>.
\<close>

datatype bound_value = BoundNode node | BoundEdge edge | BoundPath path | BoundScalar jsval

type_synonym binding_context = "string \<rightharpoonup> bound_value"

text \<open>
  \<^verbatim>\<open>boundNode && boundNode.id\<close>: the identifier where the bound value has a field
  \<^verbatim>\<open>id\<close> that is not the empty string. An edge, a path and a scalar have none.
\<close>

fun boundNodeId :: "bound_value \<Rightarrow> string option" where
  "boundNodeId (BoundNode n) = (if node_id n \<noteq> [] then Some (node_id n) else None)"
| "boundNodeId _ = None"

text \<open>
  \<^verbatim>\<open>pattern.x.variable && bindings.has(pattern.x.variable)\<close>, then the test of the
  bound value: the identifier to add, if any.
\<close>

definition boundIdOf :: "binding_context \<Rightarrow> string option \<Rightarrow> string option" where
  "boundIdOf bindings var =
     (case var of
        None \<Rightarrow> None
      | Some v \<Rightarrow>
          (if v \<noteq> [] then (case bindings v of None \<Rightarrow> None | Some b \<Rightarrow> boundNodeId b) else None))"

text \<open>
  The patterns are objects of the heap: \<^verbatim>\<open>enrichPatternWithBindings\<close> builds new
  objects and assigns to fields, so that what it leaves untouched is part of what it
  does. An object is held in the store of its kind, at its address; an object literal
  and \<^verbatim>\<open>map\<close> put a new object at the end of a store. A node pattern object holds its
  labels and its properties by reference, a segment its two patterns, a path pattern its
  start and the array of its segments.
\<close>

type_synonym addr = nat

record node_pattern_obj =
  npo_variable :: "string option"
  npo_labels :: addr
  npo_properties :: addr

record relationship_pattern_obj =
  rpo_variable :: "string option"
  rpo_type :: "string option"
  rpo_properties :: addr
  rpo_direction :: direction
  rpo_minHops :: "nat option"
  rpo_maxHops :: "nat option"

record segment_obj =
  sgo_relationship :: addr
  sgo_node :: addr

record path_pattern_obj =
  ppo_start :: addr
  ppo_segments :: addr

record heap =
  propertyObjects :: "props list"
  labelArrays :: "string list list"
  nodePatterns :: "node_pattern_obj list"
  relationshipPatterns :: "relationship_pattern_obj list"
  segmentObjects :: "segment_obj list"
  segmentArrays :: "addr list list"
  pathPatterns :: "path_pattern_obj list"

text \<open>The pattern that an address stands for: every reference followed.\<close>

definition readNodePattern :: "heap \<Rightarrow> addr \<Rightarrow> node_pattern" where
  "readNodePattern h a =
     \<lparr>np_variable = npo_variable (nodePatterns h ! a),
      np_labels = labelArrays h ! npo_labels (nodePatterns h ! a),
      np_properties = propertyObjects h ! npo_properties (nodePatterns h ! a)\<rparr>"

definition readRelationshipPattern :: "heap \<Rightarrow> addr \<Rightarrow> relationship_pattern" where
  "readRelationshipPattern h a =
     \<lparr>rp_variable = rpo_variable (relationshipPatterns h ! a),
      rp_type = rpo_type (relationshipPatterns h ! a),
      rp_properties = propertyObjects h ! rpo_properties (relationshipPatterns h ! a),
      rp_direction = rpo_direction (relationshipPatterns h ! a),
      rp_minHops = rpo_minHops (relationshipPatterns h ! a),
      rp_maxHops = rpo_maxHops (relationshipPatterns h ! a)\<rparr>"

definition readSegment :: "heap \<Rightarrow> addr \<Rightarrow> segment" where
  "readSegment h a =
     \<lparr>seg_relationship = readRelationshipPattern h (sgo_relationship (segmentObjects h ! a)),
      seg_node = readNodePattern h (sgo_node (segmentObjects h ! a))\<rparr>"

definition readPathPattern :: "heap \<Rightarrow> addr \<Rightarrow> path_pattern" where
  "readPathPattern h a =
     \<lparr>pp_start = readNodePattern h (ppo_start (pathPatterns h ! a)),
      pp_segments = map (readSegment h) (segmentArrays h ! ppo_segments (pathPatterns h ! a))\<rparr>"

text \<open>
  An address is a reference to an object of the heap, and so is every reference the
  object holds: a reference of JavaScript is never dangling.
\<close>

definition wfNodePattern :: "heap \<Rightarrow> addr \<Rightarrow> bool" where
  "wfNodePattern h a \<longleftrightarrow>
     a < length (nodePatterns h) \<and>
     npo_labels (nodePatterns h ! a) < length (labelArrays h) \<and>
     npo_properties (nodePatterns h ! a) < length (propertyObjects h)"

definition wfRelationshipPattern :: "heap \<Rightarrow> addr \<Rightarrow> bool" where
  "wfRelationshipPattern h a \<longleftrightarrow>
     a < length (relationshipPatterns h) \<and>
     rpo_properties (relationshipPatterns h ! a) < length (propertyObjects h)"

definition wfSegment :: "heap \<Rightarrow> addr \<Rightarrow> bool" where
  "wfSegment h a \<longleftrightarrow>
     a < length (segmentObjects h) \<and>
     wfRelationshipPattern h (sgo_relationship (segmentObjects h ! a)) \<and>
     wfNodePattern h (sgo_node (segmentObjects h ! a))"

definition wfPathPattern :: "heap \<Rightarrow> addr \<Rightarrow> bool" where
  "wfPathPattern h a \<longleftrightarrow>
     a < length (pathPatterns h) \<and>
     wfNodePattern h (ppo_start (pathPatterns h ! a)) \<and>
     ppo_segments (pathPatterns h ! a) < length (segmentArrays h) \<and>
     list_all (wfSegment h) (segmentArrays h ! ppo_segments (pathPatterns h ! a))"

text \<open>A new object: at the end of its store, its address the length before.\<close>

definition newProperties :: "props \<Rightarrow> heap \<Rightarrow> addr \<times> heap" where
  "newProperties ps h = (length (propertyObjects h), h\<lparr>propertyObjects := propertyObjects h @ [ps]\<rparr>)"

definition newNodePattern :: "node_pattern_obj \<Rightarrow> heap \<Rightarrow> addr \<times> heap" where
  "newNodePattern n h = (length (nodePatterns h), h\<lparr>nodePatterns := nodePatterns h @ [n]\<rparr>)"

definition newRelationshipPattern :: "relationship_pattern_obj \<Rightarrow> heap \<Rightarrow> addr \<times> heap" where
  "newRelationshipPattern r h =
     (length (relationshipPatterns h), h\<lparr>relationshipPatterns := relationshipPatterns h @ [r]\<rparr>)"

definition newSegment :: "segment_obj \<Rightarrow> heap \<Rightarrow> addr \<times> heap" where
  "newSegment s h = (length (segmentObjects h), h\<lparr>segmentObjects := segmentObjects h @ [s]\<rparr>)"

definition newSegmentArray :: "addr list \<Rightarrow> heap \<Rightarrow> addr \<times> heap" where
  "newSegmentArray ss h = (length (segmentArrays h), h\<lparr>segmentArrays := segmentArrays h @ [ss]\<rparr>)"

definition newPathPattern :: "path_pattern_obj \<Rightarrow> heap \<Rightarrow> addr \<times> heap" where
  "newPathPattern p h = (length (pathPatterns h), h\<lparr>pathPatterns := pathPatterns h @ [p]\<rparr>)"

text \<open>
  \<^verbatim>\<open>{ ...x, properties: { ...x.properties } }\<close>: a new object with the fields of
  \<^verbatim>\<open>x\<close> and a new copy of its properties. The copy is one level deep: the clone of a
  node pattern holds the labels array of the original.
\<close>

definition cloneNodePattern :: "addr \<Rightarrow> heap \<Rightarrow> addr \<times> heap" where
  "cloneNodePattern a h =
     (let n = nodePatterns h ! a;
          (properties, h1) = newProperties (propertyObjects h ! npo_properties n) h
      in newNodePattern (n\<lparr>npo_properties := properties\<rparr>) h1)"

definition cloneRelationshipPattern :: "addr \<Rightarrow> heap \<Rightarrow> addr \<times> heap" where
  "cloneRelationshipPattern a h =
     (let r = relationshipPatterns h ! a;
          (properties, h1) = newProperties (propertyObjects h ! rpo_properties r) h
      in newRelationshipPattern (r\<lparr>rpo_properties := properties\<rparr>) h1)"

text \<open>The function given to \<^verbatim>\<open>map\<close>, and \<^verbatim>\<open>map\<close> over the array of segments.\<close>

definition cloneSegment :: "addr \<Rightarrow> heap \<Rightarrow> addr \<times> heap" where
  "cloneSegment a h =
     (let segment = segmentObjects h ! a;
          (relationship, h1) = cloneRelationshipPattern (sgo_relationship segment) h;
          (node, h2) = cloneNodePattern (sgo_node segment) h1
      in newSegment \<lparr>sgo_relationship = relationship, sgo_node = node\<rparr> h2)"

fun cloneSegments :: "addr list \<Rightarrow> heap \<Rightarrow> addr list \<times> heap" where
  "cloneSegments [] h = ([], h)"
| "cloneSegments (a # rest) h =
     (let (c, h1) = cloneSegment a h;
          (cs, h2) = cloneSegments rest h1
      in (c # cs, h2))"

text \<open>
  \<^verbatim>\<open>x.properties = { ...x.properties, id: boundNode.id }\<close>: a new properties object,
  where the spread with \<^verbatim>\<open>id\<close> replaces the value of an existing key in place and
  adds a new key at the end, and an assignment to the field of the node pattern object
  at the address.
\<close>

definition setIdConstraint :: "addr \<Rightarrow> string \<Rightarrow> heap \<Rightarrow> heap" where
  "setIdConstraint a i h =
     (let n = nodePatterns h ! a;
          (properties, h1) = newProperties (AList.update ''id'' (JStr i) (propertyObjects h ! npo_properties n)) h
      in h1\<lparr>nodePatterns := (nodePatterns h1)[a := n\<lparr>npo_properties := properties\<rparr>]\<rparr>)"

text \<open>
  The function given to \<^verbatim>\<open>forEach\<close>: the segment is read from the input pattern, the
  assignment goes to the node of the segment of the clone at the same index.
\<close>

definition enrichSegmentAt :: "binding_context \<Rightarrow> addr \<Rightarrow> addr \<Rightarrow> nat \<Rightarrow> heap \<Rightarrow> heap" where
  "enrichSegmentAt bindings pattern enrichedPattern index h =
     (let segment = segmentObjects h ! (segmentArrays h ! ppo_segments (pathPatterns h ! pattern) ! index)
      in case boundIdOf bindings (npo_variable (nodePatterns h ! sgo_node segment)) of
           Some i \<Rightarrow>
             setIdConstraint
               (sgo_node (segmentObjects h !
                  (segmentArrays h ! ppo_segments (pathPatterns h ! enrichedPattern) ! index))) i h
         | None \<Rightarrow> h)"

text \<open>
  \<^verbatim>\<open>enrichPatternWithBindings\<close>: the clone, the start node, then the segments in the
  order of their indices. It returns the address of the clone and the heap it leaves.
\<close>

definition enrichPatternWithBindings :: "addr \<Rightarrow> binding_context \<Rightarrow> heap \<Rightarrow> addr \<times> heap" where
  "enrichPatternWithBindings pattern bindings h =
     (let (start, h1) = cloneNodePattern (ppo_start (pathPatterns h ! pattern)) h;
          (segments, h2) = cloneSegments (segmentArrays h1 ! ppo_segments (pathPatterns h1 ! pattern)) h1;
          (segmentsArray, h3) = newSegmentArray segments h2;
          (enrichedPattern, h4) = newPathPattern \<lparr>ppo_start = start, ppo_segments = segmentsArray\<rparr> h3;
          h5 = (case boundIdOf bindings
                       (npo_variable (nodePatterns h4 ! ppo_start (pathPatterns h4 ! pattern))) of
                  Some i \<Rightarrow> setIdConstraint (ppo_start (pathPatterns h4 ! enrichedPattern)) i h4
                | None \<Rightarrow> h4)
      in (enrichedPattern,
          fold (enrichSegmentAt bindings pattern enrichedPattern)
            [0 ..< length (segmentArrays h5 ! ppo_segments (pathPatterns h5 ! pattern))] h5))"

section \<open>Finding paths\<close>

record queue_state =
  currentNode :: node
  currentPath :: path
  segmentIdx :: nat
  varHopCount :: nat
  visitedInPath :: "string set"

text \<open>The direction has one of its three values, so \<^verbatim>\<open>direction || 'outgoing'\<close> is the direction.\<close>

definition getCandidateEdges :: "graph \<Rightarrow> string \<Rightarrow> direction \<Rightarrow> edge list" where
  "getCandidateEdges g nodeId dir = getEdgesForNode g nodeId dir"

definition getNeighborNode :: "graph \<Rightarrow> string \<Rightarrow> edge \<Rightarrow> direction \<Rightarrow> node option" where
  "getNeighborNode g currentNodeId e patternDirection =
     (let neighborId =
            (if source e = currentNodeId \<and> (patternDirection = Outgoing \<or> patternDirection = Both)
             then Some (target e)
             else if target e = currentNodeId \<and> (patternDirection = Incoming \<or> patternDirection = Both)
             then Some (source e)
             else None)
      in case neighborId of Some i \<Rightarrow> getNode g i | None \<Rightarrow> None)"

text \<open>The hop constraints of a segment, as the loop body computes them.\<close>

definition minHopsOf :: "relationship_pattern \<Rightarrow> nat" where
  "minHopsOf rel = (case rp_minHops rel of None \<Rightarrow> 1 | Some h \<Rightarrow> h)"

definition isVariable :: "relationship_pattern \<Rightarrow> bool" where
  "isVariable rel =
     (let minHops = minHopsOf rel; maxHopsSpecified = rp_maxHops rel
      in \<not> (minHops = 1 \<and> maxHopsSpecified = Some 1))"

definition maxHopsTraversal :: "matcher_options \<Rightarrow> relationship_pattern \<Rightarrow> nat" where
  "maxHopsTraversal opts rel =
     (case rp_maxHops rel of
        Some maxHopsSpecified \<Rightarrow> min maxHopsSpecified (maxPathDepth opts)
      | None \<Rightarrow> maxPathDepth opts)"

definition newPathOf :: "queue_state \<Rightarrow> node \<Rightarrow> edge \<Rightarrow> path" where
  "newPathOf st neighborNode e =
     \<lparr>nodes = nodes (currentPath st) @ [neighborNode], edges = edges (currentPath st) @ [e]\<rparr>"

text \<open>The state queued to continue the current variable segment.\<close>

definition continueState :: "queue_state \<Rightarrow> node \<Rightarrow> edge \<Rightarrow> queue_state" where
  "continueState st neighborNode e =
     \<lparr>currentNode = neighborNode,
      currentPath = newPathOf st neighborNode e,
      segmentIdx = segmentIdx st,
      varHopCount = varHopCount st + 1,
      visitedInPath = insert (node_id neighborNode) (visitedInPath st)\<rparr>"

text \<open>The state queued to go on to the next segment.\<close>

definition nextSegmentState :: "queue_state \<Rightarrow> node \<Rightarrow> edge \<Rightarrow> queue_state" where
  "nextSegmentState st neighborNode e =
     \<lparr>currentNode = neighborNode,
      currentPath = newPathOf st neighborNode e,
      segmentIdx = segmentIdx st + 1,
      varHopCount = 0,
      visitedInPath = insert (node_id neighborNode) (visitedInPath st)\<rparr>"

text \<open>
  One turn of the loop over the candidate edges, for the state taken from the queue:
  the flag is true where the body ends in \<^verbatim>\<open>break\<close>, false where it ends in
  \<^verbatim>\<open>continue\<close> or at its end. The caller has checked
  \<^verbatim>\<open>segmentIdx < segments.length\<close>.
\<close>

definition processEdge ::
  "js_builtins \<Rightarrow> matcher_options \<Rightarrow> graph \<Rightarrow> segment list \<Rightarrow> queue_state \<Rightarrow> edge \<Rightarrow>
   queue_state list \<Rightarrow> path list \<Rightarrow> bool \<times> queue_state list \<times> path list" where
  "processEdge js opts g segs st e queue results =
     (let currentSegment = segs ! segmentIdx st;
          currentRelPattern = seg_relationship currentSegment;
          targetNodePattern = seg_node currentSegment;
          minHops = minHopsOf currentRelPattern;
          isFinalSegment = (segmentIdx st + 1 \<ge> length segs)
      in case getNeighborNode g (node_id (currentNode st)) e (rp_direction currentRelPattern) of
           None \<Rightarrow> (False, queue, results)
         | Some neighborNode \<Rightarrow>
             if \<not> matchesRelationshipPattern js opts e currentRelPattern
                    (Some (currentNode st)) (Some neighborNode)
             then (False, queue, results)
             else
               let newHopCount = varHopCount st + 1;
                   newPath = newPathOf st neighborNode e;
                   wouldCycle = (node_id neighborNode \<in> visitedInPath st)
               in if (case map_of (np_properties targetNodePattern) ''id'' of
                        Some expectedId \<Rightarrow> \<not> strictEq (JStr (node_id neighborNode)) expectedId
                      | None \<Rightarrow> False)
                  then (False, queue, results)
                  else
                    let matchedTargetNode = matchesNodePattern js opts neighborNode targetNodePattern;
                        complete = (isFinalSegment \<and> newHopCount \<ge> minHops \<and> matchedTargetNode);
                        results1 = (if complete \<and> length results < maxPathResults opts
                                    then results @ [newPath] else results)
                    in if complete \<and> length results1 \<ge> maxPathResults opts
                       then (True, queue, results1)
                       else if complete \<and> \<not> isVariable currentRelPattern
                       then (False, queue, results1)
                       else
                         let queue1 =
                               (if isVariable currentRelPattern \<and>
                                   newHopCount < maxHopsTraversal opts currentRelPattern \<and> \<not> wouldCycle
                                then queue @ [continueState st neighborNode e] else queue);
                             queue2 =
                               (if newHopCount \<ge> minHops \<and> matchedTargetNode \<and>
                                   \<not> isFinalSegment \<and> \<not> wouldCycle
                                then queue1 @ [nextSegmentState st neighborNode e] else queue1)
                         in (length results1 \<ge> maxPathResults opts, queue2, results1))"

fun edgeLoop ::
  "js_builtins \<Rightarrow> matcher_options \<Rightarrow> graph \<Rightarrow> segment list \<Rightarrow> queue_state \<Rightarrow> edge list \<Rightarrow>
   queue_state list \<Rightarrow> path list \<Rightarrow> queue_state list \<times> path list" where
  "edgeLoop js opts g segs st [] queue results = (queue, results)"
| "edgeLoop js opts g segs st (e # candidateEdges) queue results =
     (case processEdge js opts g segs st e queue results of
        (brk, queue', results') \<Rightarrow>
          if brk then (queue', results')
          else edgeLoop js opts g segs st candidateEdges queue' results')"

text \<open>
  The \<^verbatim>\<open>while\<close> loop of one start node. Its first argument is the number of turns
  left before \<^verbatim>\<open>++bfsIterations > 100000\<close> breaks the loop, so it starts at 100000.
\<close>

fun bfsLoop ::
  "js_builtins \<Rightarrow> matcher_options \<Rightarrow> graph \<Rightarrow> segment list \<Rightarrow> nat \<Rightarrow>
   queue_state list \<Rightarrow> path list \<Rightarrow> path list" where
  "bfsLoop js opts g segs turns [] results = results"
| "bfsLoop js opts g segs 0 (st # queue) results = results"
| "bfsLoop js opts g segs (Suc turns) (st # queue) results =
     (if \<not> length results < maxPathResults opts then results
      else if segmentIdx st \<ge> length segs then bfsLoop js opts g segs turns queue results
      else if length (edges (currentPath st)) \<ge> maxPathDepth opts
      then bfsLoop js opts g segs turns queue results
      else
        (case edgeLoop js opts g segs st
                (getCandidateEdges g (node_id (currentNode st))
                   (rp_direction (seg_relationship (segs ! segmentIdx st))))
                queue results of
           (queue', results') \<Rightarrow>
             if length results' \<ge> maxPathResults opts then results'
             else bfsLoop js opts g segs turns queue' results'))"

definition initialState :: "node \<Rightarrow> queue_state" where
  "initialState startNode =
     \<lparr>currentNode = startNode,
      currentPath = \<lparr>nodes = [startNode], edges = []\<rparr>,
      segmentIdx = 0,
      varHopCount = 0,
      visitedInPath = {node_id startNode}\<rparr>"

text \<open>The loop over the start nodes; the results are shared by all of them.\<close>

fun startLoop ::
  "js_builtins \<Rightarrow> matcher_options \<Rightarrow> graph \<Rightarrow> segment list \<Rightarrow> node list \<Rightarrow> path list \<Rightarrow> path list" where
  "startLoop js opts g segs [] results = results"
| "startLoop js opts g segs (startNode # initialNodes) results =
     startLoop js opts g segs initialNodes
       (bfsLoop js opts g segs 100000 [initialState startNode] results)"

definition pathToString :: "path \<Rightarrow> string" where
  "pathToString p =
     (let nodeIds = join '','' (map node_id (nodes p));
          edgeIds = join '','' (map (\<lambda>e. source e @ ''-'' @ edge_label e @ ''-'' @ target e) (edges p))
      in nodeIds @ ''|'' @ edgeIds)"

text \<open>
  \<^verbatim>\<open>uniquePathsMap\<close> is a Map, which keeps its keys in the order they were first set:
  an association list that grows at its end.
\<close>

fun uniquePaths :: "path list \<Rightarrow> (string \<times> path) list \<Rightarrow> (string \<times> path) list" where
  "uniquePaths [] uniquePathsMap = uniquePathsMap"
| "uniquePaths (p # results) uniquePathsMap =
     (let pathStr = pathToString p
      in if map_of uniquePathsMap pathStr \<noteq> None then uniquePaths results uniquePathsMap
         else uniquePaths results (uniquePathsMap @ [(pathStr, p)]))"

definition uniqueResults :: "path list \<Rightarrow> path list" where
  "uniqueResults results = map snd (uniquePaths results [])"

text \<open>The start nodes: the nodes matching the start pattern, cut to the required id if there is one.\<close>

definition initialNodesOf ::
  "js_builtins \<Rightarrow> matcher \<Rightarrow> graph \<Rightarrow> node_pattern \<Rightarrow> node list \<times> matcher" where
  "initialNodesOf js m g startPattern =
     (case findMatchingNodes js m g startPattern of
        (initialNodes, m') \<Rightarrow>
          (case map_of (np_properties startPattern) ''id'' of
             Some nodeId \<Rightarrow> (filter (\<lambda>n. strictEq (JStr (node_id n)) nodeId) initialNodes, m')
           | None \<Rightarrow> (initialNodes, m')))"

text \<open>The list \<^verbatim>\<open>results\<close> as the loops leave it, before the deduplication.\<close>

definition bfsResults ::
  "js_builtins \<Rightarrow> matcher \<Rightarrow> graph \<Rightarrow> path_pattern \<Rightarrow> path list" where
  "bfsResults js m g pattern =
     startLoop js (options m) g (pp_segments pattern)
       (fst (initialNodesOf js m g (pp_start pattern))) []"

text \<open>
  \<^verbatim>\<open>findMatchingPaths\<close>. The pattern type makes \<^verbatim>\<open>start\<close> and
  \<^verbatim>\<open>segments\<close> mandatory, so the validation at its top never returns.
\<close>

definition findMatchingPaths ::
  "js_builtins \<Rightarrow> matcher \<Rightarrow> graph \<Rightarrow> path_pattern \<Rightarrow> path list \<times> matcher" where
  "findMatchingPaths js m g pattern =
     (case initialNodesOf js m g (pp_start pattern) of
        (initialNodes, m') \<Rightarrow>
          if pp_segments pattern = []
          then (map (\<lambda>n. \<lparr>nodes = [n], edges = []\<rparr>) initialNodes, m')
          else (uniqueResults (startLoop js (options m) g (pp_segments pattern) initialNodes []), m'))"

section \<open>What one turn of the edge loop can add\<close>

text \<open>
  An edge taken from one node to the next under a relationship pattern, as the loop body
  tests it: the neighbour found over the edge in the direction of the pattern, and the
  edge matching the pattern between the two nodes.
\<close>

definition edgeMatches ::
  "js_builtins \<Rightarrow> matcher_options \<Rightarrow> graph \<Rightarrow> relationship_pattern \<Rightarrow> node \<Rightarrow> edge \<Rightarrow> node \<Rightarrow> bool" where
  "edgeMatches js opts g rel fromNode e toNode =
     (getNeighborNode g (node_id fromNode) e (rp_direction rel) = Some toNode \<and>
      matchesRelationshipPattern js opts e rel (Some fromNode) (Some toNode))"

text \<open>
  A state that \<open>processEdge\<close> can queue from the state \<open>st\<close>, and a path that it
  can add to the results, with the conditions of the source under which it does.
\<close>

definition succ_state ::
  "js_builtins \<Rightarrow> matcher_options \<Rightarrow> graph \<Rightarrow> segment list \<Rightarrow> queue_state \<Rightarrow> edge \<Rightarrow> queue_state \<Rightarrow> bool" where
  "succ_state js opts g segs st e s =
     (\<exists>nb. node_id nb \<notin> visitedInPath st \<and>
        edgeMatches js opts g (seg_relationship (segs ! segmentIdx st)) (currentNode st) e nb \<and>
        ((s = continueState st nb e \<and> isVariable (seg_relationship (segs ! segmentIdx st)) \<and>
          varHopCount st + 1 < maxHopsTraversal opts (seg_relationship (segs ! segmentIdx st))) \<or>
         (s = nextSegmentState st nb e \<and>
          minHopsOf (seg_relationship (segs ! segmentIdx st)) \<le> varHopCount st + 1 \<and>
          segmentIdx st + 1 < length segs \<and>
          matchesNodePattern js opts nb (seg_node (segs ! segmentIdx st)))))"

definition succ_path ::
  "js_builtins \<Rightarrow> matcher_options \<Rightarrow> graph \<Rightarrow> segment list \<Rightarrow> queue_state \<Rightarrow> edge \<Rightarrow> path \<Rightarrow> bool" where
  "succ_path js opts g segs st e p =
     (\<exists>nb. p = newPathOf st nb e \<and>
        edgeMatches js opts g (seg_relationship (segs ! segmentIdx st)) (currentNode st) e nb \<and>
        length segs \<le> segmentIdx st + 1 \<and>
        minHopsOf (seg_relationship (segs ! segmentIdx st)) \<le> varHopCount st + 1 \<and>
        matchesNodePattern js opts nb (seg_node (segs ! segmentIdx st)))"

text \<open>What the deduplication keeps true of its map: one entry per key, under the key of its path.\<close>

definition map_ok :: "(string \<times> path) list \<Rightarrow> bool" where
  "map_ok m = (distinct (map fst m) \<and> (\<forall>(k, p) \<in> set m. k = pathToString p))"

text \<open>
  What holds of every queued state: the nodes of its path have distinct ids, and the
  visited set is the set of these ids.
\<close>

definition distinctState :: "queue_state \<Rightarrow> bool" where
  "distinctState st =
     (distinct (map node_id (nodes (currentPath st))) \<and>
      visitedInPath st = node_id ` set (nodes (currentPath st)))"

text \<open>
  Hop counts. A segment has taken \<open>k\<close> edges rightly when \<open>k\<close> is at least one and
  at least its minimum, and is one or stays within the traversal limit of a variable
  segment. The edges of a path are split into runs, one per segment, by the list of
  their lengths: the run of segment \<open>i\<close> starts at the edge \<open>offsetOf ks i\<close>. The runs
  match the segments when every run has a right length, each of its edges matches the
  relationship pattern of its segment between the two nodes it joins on the path, and
  the node that ends the run matches the node pattern of the segment. A queued state
  has such runs for the segments it has left behind, and the edges of its current
  segment after them; a result has a run for every segment.
\<close>

definition hops_ok :: "matcher_options \<Rightarrow> relationship_pattern \<Rightarrow> nat \<Rightarrow> bool" where
  "hops_ok opts rel k =
     (1 \<le> k \<and> minHopsOf rel \<le> k \<and> (k = 1 \<or> (isVariable rel \<and> k \<le> maxHopsTraversal opts rel)))"

definition offsetOf :: "nat list \<Rightarrow> nat \<Rightarrow> nat" where
  "offsetOf ks i = sum_list (take i ks)"

definition stepOk ::
  "js_builtins \<Rightarrow> matcher_options \<Rightarrow> graph \<Rightarrow> relationship_pattern \<Rightarrow> path \<Rightarrow> nat \<Rightarrow> bool" where
  "stepOk js opts g rel p j = edgeMatches js opts g rel (nodes p ! j) (edges p ! j) (nodes p ! Suc j)"

definition runsMatch ::
  "js_builtins \<Rightarrow> matcher_options \<Rightarrow> graph \<Rightarrow> segment list \<Rightarrow> path \<Rightarrow> nat list \<Rightarrow> bool" where
  "runsMatch js opts g segs p ks =
     (\<forall>i < length ks.
        hops_ok opts (seg_relationship (segs ! i)) (ks ! i) \<and>
        (\<forall>j. offsetOf ks i \<le> j \<and> j < offsetOf ks i + ks ! i \<longrightarrow>
              stepOk js opts g (seg_relationship (segs ! i)) p j) \<and>
        matchesNodePattern js opts (nodes p ! (offsetOf ks i + ks ! i)) (seg_node (segs ! i)))"

definition hopState ::
  "js_builtins \<Rightarrow> matcher_options \<Rightarrow> graph \<Rightarrow> segment list \<Rightarrow> queue_state \<Rightarrow> bool" where
  "hopState js opts g segs st =
     (length (nodes (currentPath st)) = length (edges (currentPath st)) + 1 \<and>
      last (nodes (currentPath st)) = currentNode st \<and>
      (\<exists>ks. length ks = segmentIdx st \<and>
            sum_list ks + varHopCount st = length (edges (currentPath st)) \<and>
            runsMatch js opts g segs (currentPath st) ks \<and>
            (\<forall>j. sum_list ks \<le> j \<and> j < length (edges (currentPath st)) \<longrightarrow>
                  stepOk js opts g (seg_relationship (segs ! segmentIdx st)) (currentPath st) j)) \<and>
      (0 < varHopCount st \<longrightarrow>
         isVariable (seg_relationship (segs ! segmentIdx st)) \<and>
         varHopCount st < maxHopsTraversal opts (seg_relationship (segs ! segmentIdx st))))"

definition hopPath ::
  "js_builtins \<Rightarrow> matcher_options \<Rightarrow> graph \<Rightarrow> segment list \<Rightarrow> path \<Rightarrow> bool" where
  "hopPath js opts g segs p =
     (length (edges p) \<le> maxPathDepth opts \<and>
      length (nodes p) = length (edges p) + 1 \<and>
      (\<exists>ks. length ks = length segs \<and> sum_list ks = length (edges p) \<and>
            runsMatch js opts g segs p ks))"

section \<open>The statements of the spec, for comparison\<close>

text \<open>
  The variability of a segment as the spec states it: with \<^verbatim>\<open>minHops\<close> defaulting
  to 1 and \<^verbatim>\<open>maxHops\<close> defaulting to \<^verbatim>\<open>minHops\<close>, the segment is variable
  iff the pair is not (1, 1).
\<close>

definition spec_isVariable :: "relationship_pattern \<Rightarrow> bool" where
  "spec_isVariable rel =
     (let minHops = (case rp_minHops rel of None \<Rightarrow> 1 | Some h \<Rightarrow> h);
          maxHops = (case rp_maxHops rel of None \<Rightarrow> minHops | Some h \<Rightarrow> h)
      in (minHops, maxHops) \<noteq> (1, 1))"

text \<open>
  The enrichment of one node pattern, stated on its own: a pattern whose variable is a
  non-empty name bound to a node with a non-empty id gets the constraint \<open>id\<close>; every
  other pattern is left as it is.
\<close>

definition enrichNode :: "binding_context \<Rightarrow> node_pattern \<Rightarrow> node_pattern" where
  "enrichNode bindings np =
     (case np_variable np of
        None \<Rightarrow> np
      | Some v \<Rightarrow>
          (case bindings v of
             Some (BoundNode n) \<Rightarrow>
               if v \<noteq> [] \<and> node_id n \<noteq> []
               then np\<lparr>np_properties := AList.update ''id'' (JStr (node_id n)) (np_properties np)\<rparr>
               else np
           | _ \<Rightarrow> np))"

definition enrichSegment :: "binding_context \<Rightarrow> segment \<Rightarrow> segment" where
  "enrichSegment bindings seg = seg\<lparr>seg_node := enrichNode bindings (seg_node seg)\<rparr>"

section \<open>The heap while a pattern is enriched\<close>

text \<open>
  The heap after a call keeps every object that was there before it as it was: each
  store begins with the store before the call.
\<close>

definition heapExtends :: "heap \<Rightarrow> heap \<Rightarrow> bool" where
  "heapExtends h h' \<longleftrightarrow>
     prefix (propertyObjects h) (propertyObjects h') \<and>
     prefix (labelArrays h) (labelArrays h') \<and>
     prefix (nodePatterns h) (nodePatterns h') \<and>
     prefix (relationshipPatterns h) (relationshipPatterns h') \<and>
     prefix (segmentObjects h) (segmentObjects h') \<and>
     prefix (segmentArrays h) (segmentArrays h') \<and>
     prefix (pathPatterns h) (pathPatterns h')"

text \<open>
  The state of the heap while the node patterns of the clone are gone through: the clones
  of the node patterns \<open>nps\<close> (the start, then the node of every segment) are the node
  pattern objects added to the heap \<open>h0\<close> of the call; the first \<open>k\<close> of them are
  enriched, the others read as their originals; apart from new property objects and the
  node patterns of the clone, the heap is the heap \<open>hc\<close> that holds the clone.
\<close>

definition enrichedUpTo :: "binding_context \<Rightarrow> heap \<Rightarrow> heap \<Rightarrow> node_pattern list \<Rightarrow> nat \<Rightarrow> heap \<Rightarrow> bool" where
  "enrichedUpTo b h0 hc nps k h \<longleftrightarrow>
     labelArrays h = labelArrays hc \<and>
     relationshipPatterns h = relationshipPatterns hc \<and>
     segmentObjects h = segmentObjects hc \<and>
     segmentArrays h = segmentArrays hc \<and>
     pathPatterns h = pathPatterns hc \<and>
     prefix (propertyObjects hc) (propertyObjects h) \<and>
     prefix (nodePatterns h0) (nodePatterns h) \<and>
     (\<forall>j < length nps.
        wfNodePattern h (length (nodePatterns h0) + j) \<and>
        readNodePattern h (length (nodePatterns h0) + j) =
          (if j < k then enrichNode b (nps ! j) else nps ! j))"

section \<open>Queries and the state of the caches\<close>

text \<open>
  A query on a node pattern, a path pattern or a relationship pattern, and its result;
  the matcher comes back with its caches.
\<close>

datatype query =
    NodeQuery node_pattern
  | PathQuery path_pattern
  | RelationshipQuery relationship_pattern "string option"

datatype query_result =
    NodeResult "node list"
  | PathResult "path list"
  | RelationshipResult "edge list"

definition runQuery :: "js_builtins \<Rightarrow> matcher \<Rightarrow> graph \<Rightarrow> query \<Rightarrow> query_result \<times> matcher" where
  "runQuery js m g q =
     (case q of
        NodeQuery p \<Rightarrow> (case findMatchingNodes js m g p of (ns, m') \<Rightarrow> (NodeResult ns, m'))
      | PathQuery p \<Rightarrow> (case findMatchingPaths js m g p of (ps, m') \<Rightarrow> (PathResult ps, m'))
      | RelationshipQuery p sourceId \<Rightarrow>
          (case findMatchingRelationships js m g p sourceId of (es, m') \<Rightarrow> (RelationshipResult es, m')))"

text \<open>
  The caches are current for a graph when every entry they hold is the entry a scan of
  this graph would store under its key. The caches of a new matcher are.
\<close>

definition cachesCurrent :: "js_builtins \<Rightarrow> matcher \<Rightarrow> graph \<Rightarrow> bool" where
  "cachesCurrent js m g =
     ((\<forall>key nodeIds. labelCache m key = Some nodeIds \<longrightarrow>
         nodeIds = map node_id (filter (\<lambda>n. normalizeLabel js (options m) (node_label n) = key) (graph_nodes g))) \<and>
      (\<forall>key edgeIdentifiers. typeCache m key = Some edgeIdentifiers \<longrightarrow>
         edgeIdentifiers =
           map (\<lambda>e. (source e, target e, edge_label e))
             (filter (\<lambda>e. normalizeLabel js (options m) (edge_label e) = key) (graph_edges g))))"

text \<open>
  The invariant of the graph store that node ids are unique, and what the label cache
  then holds: lists of distinct ids.
\<close>

definition uniqueNodeIds :: "graph \<Rightarrow> bool" where
  "uniqueNodeIds g = distinct (map node_id (graph_nodes g))"

definition labelCacheDistinct :: "matcher \<Rightarrow> bool" where
  "labelCacheDistinct m = (\<forall>key nodeIds. labelCache m key = Some nodeIds \<longrightarrow> distinct nodeIds)"

section \<open>Example inputs\<close>

text \<open>
  Small inputs on which the functions are run below: built-ins of which only
  \<^verbatim>\<open>toLowerCase\<close> is called (type coercion is off by default), a matcher with no
  option set, graphs of a few nodes
  labelled Stop joined by edges labelled NEXT, and patterns over them.
\<close>

text \<open>
  On a string of ASCII characters \<^verbatim>\<open>toLowerCase\<close> turns the letters A to Z into
  a to z and leaves every other character: this is the function the examples, which are
  ASCII, are run with.
\<close>

definition isUpper :: "char \<Rightarrow> bool" where
  "isUpper c = (let n = (of_char c :: nat) in 65 \<le> n \<and> n \<le> 90)"

fun lowerChar :: "char \<Rightarrow> char" where
  "lowerChar (Char b0 b1 b2 b3 b4 b5 b6 b7) =
     (if isUpper (Char b0 b1 b2 b3 b4 b5 b6 b7) then Char b0 b1 b2 b3 b4 True b6 b7
      else Char b0 b1 b2 b3 b4 b5 b6 b7)"

definition asciiToLowerCase :: "string \<Rightarrow> string" where
  "asciiToLowerCase s = map lowerChar s"

definition exampleBuiltins :: js_builtins where
  "exampleBuiltins =
     \<lparr>parseFloat = (\<lambda>s. NaN), numberToString = (\<lambda>n. []), toLowerCase = asciiToLowerCase\<rparr>"

definition noOptions :: matcher_options_input where
  "noOptions = \<lparr>in_caseSensitiveLabels = None, in_enableTypeCoercion = None,
                in_maxPathDepth = None, in_maxPathResults = None\<rparr>"

definition exampleNode :: "string \<Rightarrow> string \<Rightarrow> node" where
  "exampleNode i l = \<lparr>node_id = i, node_label = l, node_data = Some []\<rparr>"

definition exampleEdge :: "string \<Rightarrow> string \<Rightarrow> string \<Rightarrow> edge" where
  "exampleEdge s l t = \<lparr>source = s, target = t, edge_label = l, edge_data = Some []\<rparr>"

definition chainGraph :: graph where
  "chainGraph =
     \<lparr>graph_nodes = [exampleNode ''a'' ''Stop'', exampleNode ''b'' ''Stop'', exampleNode ''c'' ''Stop''],
      graph_edges = [exampleEdge ''a'' ''NEXT'' ''b'', exampleEdge ''b'' ''NEXT'' ''c'']\<rparr>"

definition cycleGraph :: graph where
  "cycleGraph =
     \<lparr>graph_nodes = [exampleNode ''a'' ''Stop'', exampleNode ''b'' ''Stop''],
      graph_edges = [exampleEdge ''a'' ''NEXT'' ''b'', exampleEdge ''b'' ''NEXT'' ''a'']\<rparr>"

definition anyNode :: node_pattern where
  "anyNode = \<lparr>np_variable = None, np_labels = [], np_properties = []\<rparr>"

definition hops :: "nat option \<Rightarrow> nat option \<Rightarrow> relationship_pattern" where
  "hops lo hi =
     \<lparr>rp_variable = None, rp_type = None, rp_properties = [], rp_direction = Outgoing,
      rp_minHops = lo, rp_maxHops = hi\<rparr>"

definition pathOf :: "node_pattern \<Rightarrow> relationship_pattern list \<Rightarrow> path_pattern" where
  "pathOf startPattern rels =
     \<lparr>pp_start = startPattern,
      pp_segments = map (\<lambda>r. \<lparr>seg_relationship = r, seg_node = anyNode\<rparr>) rels\<rparr>"

definition lineGraph :: graph where
  "lineGraph =
     \<lparr>graph_nodes = [exampleNode ''a'' ''Stop'', exampleNode ''b'' ''Stop'', exampleNode ''c'' ''Stop'',
                     exampleNode ''d'' ''Stop''],
      graph_edges = [exampleEdge ''a'' ''NEXT'' ''b'', exampleEdge ''b'' ''NEXT'' ''c'',
                     exampleEdge ''c'' ''NEXT'' ''d'']\<rparr>"

text \<open>
  A heap holding the pattern (n:Person {name: 'Ann'})-[:KNOWS]->(m:Person), whose two
  node patterns hold the same labels array, and a heap holding the pattern (n) alone.
\<close>

definition exampleHeap :: heap where
  "exampleHeap =
     \<lparr>propertyObjects = [[(''name'', JStr ''Ann'')], [], []],
      labelArrays = [[''Person'']],
      nodePatterns =
        [\<lparr>npo_variable = Some ''n'', npo_labels = 0, npo_properties = 0\<rparr>,
         \<lparr>npo_variable = Some ''m'', npo_labels = 0, npo_properties = 2\<rparr>],
      relationshipPatterns =
        [\<lparr>rpo_variable = None, rpo_type = Some ''KNOWS'', rpo_properties = 1,
          rpo_direction = Outgoing, rpo_minHops = None, rpo_maxHops = None\<rparr>],
      segmentObjects = [\<lparr>sgo_relationship = 0, sgo_node = 1\<rparr>],
      segmentArrays = [[0]],
      pathPatterns = [\<lparr>ppo_start = 0, ppo_segments = 0\<rparr>]\<rparr>"

definition startOnlyHeap :: heap where
  "startOnlyHeap =
     \<lparr>propertyObjects = [[]],
      labelArrays = [[]],
      nodePatterns = [\<lparr>npo_variable = Some ''n'', npo_labels = 0, npo_properties = 0\<rparr>],
      relationshipPatterns = [],
      segmentObjects = [],
      segmentArrays = [[]],
      pathPatterns = [\<lparr>ppo_start = 0, ppo_segments = 0\<rparr>]\<rparr>"

section \<open>Lemmas: nodes\<close>

lemma getNode_in_graph: "getNode g i = Some n \<Longrightarrow> n \<in> set (graph_nodes g)"
  by (auto simp: getNode_def find_Some_iff)

lemma getNode_id: "getNode g i = Some n \<Longrightarrow> node_id n = i"
  by (auto simp: getNode_def find_Some_iff)

lemma set_map_filter_iff: "y \<in> set (List.map_filter f xs) \<longleftrightarrow> (\<exists>x \<in> set xs. f x = Some y)"
  by (induction xs) (auto split: option.splits)

lemma getNodesByLabel_in_graph:
  "n \<in> set (fst (getNodesByLabel js m g l)) \<Longrightarrow> n \<in> set (graph_nodes g)"
  by (auto simp: getNodesByLabel_def Let_def set_map_filter_iff split: option.splits
      dest: getNode_in_graph)

lemma getNodesByLabel_options: "options (snd (getNodesByLabel js m g l)) = options m"
  by (simp add: getNodesByLabel_def Let_def split: option.splits)

lemma findMatchingNodes_options: "options (snd (findMatchingNodes js m g p)) = options m"
proof (cases "np_labels p")
  case Nil
  then show ?thesis by (simp add: findMatchingNodes_def)
next
  case (Cons l ls)
  then show ?thesis
    using getNodesByLabel_options [of js m g l]
    by (cases "getNodesByLabel js m g l") (simp add: findMatchingNodes_def)
qed

lemma valuesMatch_array:
  "\<not> enableTypeCoercion opts \<Longrightarrow> \<not> isArray expected \<Longrightarrow>
   valuesMatch js opts (JArr items) expected = (\<exists>item \<in> set items. valuesMatch js opts item expected)"
  by (subst valuesMatch.simps) (auto simp: list_ex_iff)

lemma valuesMatch_scalar:
  "\<not> enableTypeCoercion opts \<Longrightarrow> \<not> isArray item \<Longrightarrow>
   valuesMatch js opts item expected = strictEq item expected"
  by (subst valuesMatch.simps) (cases item; simp)

section \<open>Lemmas: the loops of findMatchingPaths\<close>

lemma processEdge_queue:
  assumes "processEdge js opts g segs st e queue results = (brk, queue', results')"
  shows "\<exists>qs. queue' = queue @ qs \<and> (\<forall>s \<in> set qs. succ_state js opts g segs st e s)"
  using assms
  unfolding processEdge_def Let_def succ_state_def edgeMatches_def
  by (auto split: option.splits if_splits)

lemma processEdge_results:
  assumes "processEdge js opts g segs st e queue results = (brk, queue', results')"
  shows "\<exists>ps. results' = results @ ps \<and> (\<forall>p \<in> set ps. succ_path js opts g segs st e p)"
  using assms
  unfolding processEdge_def Let_def succ_path_def edgeMatches_def
  by (auto split: option.splits if_splits)

lemma processEdge_length:
  assumes "processEdge js opts g segs st e queue results = (brk, queue', results')"
  shows "length results' \<le> max (length results) (maxPathResults opts)"
  using assms
  unfolding processEdge_def Let_def
  by (auto split: option.splits if_splits)


lemma edgeLoop_inv:
  assumes "edgeLoop js opts g segs st es queue results = (queue', results')"
    and "\<forall>s \<in> set queue. SI s" and "\<forall>p \<in> set results. RI p"
    and "\<And>e s. succ_state js opts g segs st e s \<Longrightarrow> SI s"
    and "\<And>e p. succ_path js opts g segs st e p \<Longrightarrow> RI p"
  shows "(\<forall>s \<in> set queue'. SI s) \<and> (\<forall>p \<in> set results'. RI p)"
  using assms
proof (induction es arbitrary: queue results)
  case Nil
  then show ?case by simp
next
  case (Cons e es)
  obtain brk q1 r1 where pe: "processEdge js opts g segs st e queue results = (brk, q1, r1)"
    by (cases "processEdge js opts g segs st e queue results") auto
  from processEdge_queue [OF pe] Cons.prems(2)
  have q1: "\<forall>s \<in> set q1. SI s" by (auto intro: Cons.prems(4))
  from processEdge_results [OF pe] Cons.prems(3)
  have r1: "\<forall>p \<in> set r1. RI p" by (auto intro: Cons.prems(5))
  show ?case
  proof (cases brk)
    case True
    with Cons.prems(1) pe have "queue' = q1" "results' = r1" by simp_all
    with q1 r1 show ?thesis by simp
  next
    case False
    with Cons.prems(1) pe have "edgeLoop js opts g segs st es q1 r1 = (queue', results')" by simp
    from Cons.IH [OF this q1 r1 Cons.prems(4) Cons.prems(5)] show ?thesis .
  qed
qed

lemma bfsLoop_inv:
  assumes "\<forall>s \<in> set queue. SI s" and "\<forall>p \<in> set results. RI p"
    and step_state: "\<And>st e s. SI st \<Longrightarrow> segmentIdx st < length segs \<Longrightarrow>
           length (edges (currentPath st)) < maxPathDepth opts \<Longrightarrow> succ_state js opts g segs st e s \<Longrightarrow> SI s"
    and step_path: "\<And>st e p. SI st \<Longrightarrow> segmentIdx st < length segs \<Longrightarrow>
           length (edges (currentPath st)) < maxPathDepth opts \<Longrightarrow> succ_path js opts g segs st e p \<Longrightarrow> RI p"
  shows "\<forall>p \<in> set (bfsLoop js opts g segs turns queue results). RI p"
  using assms(1,2)
proof (induction turns arbitrary: queue results)
  case 0
  then show ?case by (cases queue) simp_all
next
  case (Suc turns)
  show ?case
  proof (cases queue)
    case Nil
    with Suc.prems show ?thesis by simp
  next
    case (Cons st rest)
    have st: "SI st" and qu: "\<forall>s \<in> set rest. SI s" using Suc.prems(1) Cons by simp_all
    show ?thesis
    proof (cases "\<not> length results < maxPathResults opts")
      case True
      with Suc.prems(2) Cons show ?thesis by simp
    next
      case lim: False
      show ?thesis
      proof (cases "length segs \<le> segmentIdx st")
        case True
        with lim Cons Suc.IH [OF qu Suc.prems(2)] show ?thesis by simp
      next
        case seg: False
        show ?thesis
        proof (cases "maxPathDepth opts \<le> length (edges (currentPath st))")
          case True
          with lim seg Cons Suc.IH [OF qu Suc.prems(2)] show ?thesis by simp
        next
          case depth: False
          obtain q1 r1 where el: "edgeLoop js opts g segs st
                  (getCandidateEdges g (node_id (currentNode st))
                     (rp_direction (seg_relationship (segs ! segmentIdx st))))
                  rest results = (q1, r1)"
            by (cases "edgeLoop js opts g segs st
                  (getCandidateEdges g (node_id (currentNode st))
                     (rp_direction (seg_relationship (segs ! segmentIdx st))))
                  rest results") auto
          from seg have s1: "segmentIdx st < length segs" by simp
          from depth have d1: "length (edges (currentPath st)) < maxPathDepth opts" by simp
          have inv1: "(\<forall>s \<in> set q1. SI s) \<and> (\<forall>p \<in> set r1. RI p)"
          proof (rule edgeLoop_inv [OF el qu Suc.prems(2)])
            fix e s assume a: "succ_state js opts g segs st e s"
            show "SI s" by (rule step_state [OF st s1 d1 a])
          next
            fix e p assume a: "succ_path js opts g segs st e p"
            show "RI p" by (rule step_path [OF st s1 d1 a])
          qed
          show ?thesis
          proof (cases "maxPathResults opts \<le> length r1")
            case True
            with lim seg depth el inv1 Cons show ?thesis by simp
          next
            case False
            from Suc.IH [of q1 r1] inv1
            have "\<forall>p \<in> set (bfsLoop js opts g segs turns q1 r1). RI p" by simp
            with lim seg depth el False Cons show ?thesis by simp
          qed
        qed
      qed
    qed
  qed
qed

lemma startLoop_inv:
  assumes "\<forall>p \<in> set results. RI p"
    and init: "\<And>n. SI (initialState n)"
    and step_state: "\<And>st e s. SI st \<Longrightarrow> segmentIdx st < length segs \<Longrightarrow>
           length (edges (currentPath st)) < maxPathDepth opts \<Longrightarrow> succ_state js opts g segs st e s \<Longrightarrow> SI s"
    and step_path: "\<And>st e p. SI st \<Longrightarrow> segmentIdx st < length segs \<Longrightarrow>
           length (edges (currentPath st)) < maxPathDepth opts \<Longrightarrow> succ_path js opts g segs st e p \<Longrightarrow> RI p"
  shows "\<forall>p \<in> set (startLoop js opts g segs initialNodes results). RI p"
  using assms(1)
proof (induction initialNodes arbitrary: results)
  case Nil
  then show ?case by simp
next
  case (Cons n ns)
  have "\<forall>p \<in> set (bfsLoop js opts g segs 100000 [initialState n] results). RI p"
  proof (rule bfsLoop_inv [where SI = SI])
    show "\<forall>s \<in> set [initialState n]. SI s" by (simp add: init)
    show "\<forall>p \<in> set results. RI p" by (rule Cons.prems)
  qed (erule (3) step_state, erule (3) step_path)
  from Cons.IH [OF this] show ?case by simp
qed


section \<open>Lemmas: the deduplication\<close>

lemma map_of_None_iff: "map_of m k = None \<longleftrightarrow> k \<notin> fst ` set m"
  by (simp add: map_of_eq_None_iff)

lemma uniquePaths_ok: "map_ok m \<Longrightarrow> map_ok (uniquePaths rs m)"
proof (induction rs arbitrary: m)
  case Nil
  then show ?case by simp
next
  case (Cons r rs)
  show ?case
  proof (cases "map_of m (pathToString r) = None")
    case True
    then have "pathToString r \<notin> fst ` set m" by (simp add: map_of_None_iff)
    with Cons.prems have "map_ok (m @ [(pathToString r, r)])"
      by (auto simp: map_ok_def)
    from Cons.IH [OF this] True show ?thesis by (simp add: Let_def)
  next
    case False
    with Cons.IH [OF Cons.prems] show ?thesis by (simp add: Let_def)
  qed
qed

lemma uniquePaths_shape:
  "\<exists>ys. uniquePaths rs m = m @ ys \<and> subseq (map snd ys) rs \<and>
        fst ` set ys = pathToString ` set rs - fst ` set m \<and>
        (\<forall>(k, p) \<in> set ys. find (\<lambda>q. pathToString q = k) rs = Some p)"
proof (induction rs arbitrary: m)
  case Nil
  then show ?case by simp
next
  case (Cons r rs)
  show ?case
  proof (cases "map_of m (pathToString r) = None")
    case True
    then have notin: "pathToString r \<notin> fst ` set m" by (simp add: map_of_None_iff)
    from Cons.IH [of "m @ [(pathToString r, r)]"]
    obtain ys where ys: "uniquePaths rs (m @ [(pathToString r, r)]) = (m @ [(pathToString r, r)]) @ ys"
      "subseq (map snd ys) rs"
      "fst ` set ys = pathToString ` set rs - fst ` set (m @ [(pathToString r, r)])"
      "\<forall>(k, p) \<in> set ys. find (\<lambda>q. pathToString q = k) rs = Some p"
      by blast
    let ?ys = "(pathToString r, r) # ys"
    have 1: "uniquePaths (r # rs) m = m @ ?ys" using True ys(1) by (simp add: Let_def)
    have 2: "subseq (map snd ?ys) (r # rs)" using ys(2) by simp
    have 3: "fst ` set ?ys = pathToString ` set (r # rs) - fst ` set m"
      using ys(3) notin by auto
    have 4: "\<forall>(k, p) \<in> set ?ys. find (\<lambda>q. pathToString q = k) (r # rs) = Some p"
    proof (clarify)
      fix k p assume kp: "(k, p) \<in> set ?ys"
      show "find (\<lambda>q. pathToString q = k) (r # rs) = Some p"
      proof (cases "(k, p) = (pathToString r, r)")
        case True
        then show ?thesis by simp
      next
        case False
        with kp have in_ys: "(k, p) \<in> set ys" by auto
        then have "k \<in> fst ` set ys" by force
        with ys(3) have "k \<notin> fst ` set (m @ [(pathToString r, r)])" by blast
        then have "k \<noteq> pathToString r" by auto
        moreover from ys(4) in_ys have "find (\<lambda>q. pathToString q = k) rs = Some p" by auto
        ultimately show ?thesis by auto
      qed
    qed
    from 1 2 3 4 show ?thesis by blast
  next
    case False
    then have isin: "pathToString r \<in> fst ` set m" by (simp add: map_of_None_iff)
    from Cons.IH [of m]
    obtain ys where ys: "uniquePaths rs m = m @ ys"
      "subseq (map snd ys) rs"
      "fst ` set ys = pathToString ` set rs - fst ` set m"
      "\<forall>(k, p) \<in> set ys. find (\<lambda>q. pathToString q = k) rs = Some p"
      by blast
    have 1: "uniquePaths (r # rs) m = m @ ys" using False ys(1) by (simp add: Let_def)
    have 2: "subseq (map snd ys) (r # rs)" using ys(2) by (rule list_emb_Cons)
    have 3: "fst ` set ys = pathToString ` set (r # rs) - fst ` set m"
      using ys(3) isin by auto
    have 4: "\<forall>(k, p) \<in> set ys. find (\<lambda>q. pathToString q = k) (r # rs) = Some p"
    proof (clarify)
      fix k p assume in_ys: "(k, p) \<in> set ys"
      then have "k \<in> fst ` set ys" by force
      with ys(3) have "k \<notin> fst ` set m" by blast
      with isin have "k \<noteq> pathToString r" by blast
      moreover from ys(4) in_ys have "find (\<lambda>q. pathToString q = k) rs = Some p" by auto
      ultimately show "find (\<lambda>q. pathToString q = k) (r # rs) = Some p" by auto
    qed
    from 1 2 3 4 show ?thesis by blast
  qed
qed

lemma uniqueResults_subseq: "subseq (uniqueResults rs) rs"
  using uniquePaths_shape [of rs "[]"] by (auto simp: uniqueResults_def)

lemma uniqueResults_subset: "set (uniqueResults rs) \<subseteq> set rs"
  using uniqueResults_subseq [of rs] by (auto elim: list_emb_set)

lemma uniqueResults_length: "length (uniqueResults rs) \<le> length rs"
  using uniqueResults_subseq [of rs] by (rule list_emb_length)

lemma uniqueResults_keys: "pathToString ` set (uniqueResults rs) = pathToString ` set rs"
proof -
  have ok: "map_ok (uniquePaths rs [])" by (rule uniquePaths_ok) (simp add: map_ok_def)
  from uniquePaths_shape [of rs "[]"]
  have keys: "fst ` set (uniquePaths rs []) = pathToString ` set rs" by auto
  have "pathToString ` set (uniqueResults rs) = fst ` set (uniquePaths rs [])"
    using ok by (force simp: uniqueResults_def map_ok_def image_iff)
  with keys show ?thesis by simp
qed

lemma uniqueResults_distinct: "distinct (map pathToString (uniqueResults rs))"
proof -
  have ok: "map_ok (uniquePaths rs [])" by (rule uniquePaths_ok) (simp add: map_ok_def)
  then have "map pathToString (uniqueResults rs) = map fst (uniquePaths rs [])"
    by (auto simp: uniqueResults_def map_ok_def)
  with ok show ?thesis by (simp add: map_ok_def)
qed

lemma uniqueResults_first:
  "p \<in> set (uniqueResults rs) \<Longrightarrow> find (\<lambda>q. pathToString q = pathToString p) rs = Some p"
proof -
  assume p: "p \<in> set (uniqueResults rs)"
  have ok: "map_ok (uniquePaths rs [])" by (rule uniquePaths_ok) (simp add: map_ok_def)
  from p obtain k where kp: "(k, p) \<in> set (uniquePaths rs [])"
    by (auto simp: uniqueResults_def)
  with ok have "k = pathToString p" by (auto simp: map_ok_def)
  with kp uniquePaths_shape [of rs "[]"] show ?thesis by auto
qed


section \<open>Lemmas: the number of results, distinct nodes, hop counts\<close>

lemma edgeLoop_length:
  "edgeLoop js opts g segs st es queue results = (queue', results') \<Longrightarrow>
   length results' \<le> max (length results) (maxPathResults opts)"
proof (induction es arbitrary: queue results)
  case Nil
  then show ?case by simp
next
  case (Cons e es)
  obtain brk q1 r1 where pe: "processEdge js opts g segs st e queue results = (brk, q1, r1)"
    by (cases "processEdge js opts g segs st e queue results") auto
  note len = processEdge_length [OF pe]
  show ?case
  proof (cases brk)
    case True
    with Cons.prems pe len show ?thesis by simp
  next
    case False
    with Cons.prems pe have "edgeLoop js opts g segs st es q1 r1 = (queue', results')" by simp
    from Cons.IH [OF this] len show ?thesis by simp
  qed
qed

lemma bfsLoop_length:
  "length (bfsLoop js opts g segs turns queue results) \<le> max (length results) (maxPathResults opts)"
proof (induction turns arbitrary: queue results)
  case 0
  then show ?case by (cases queue) simp_all
next
  case (Suc turns)
  show ?case
  proof (cases queue)
    case Nil
    then show ?thesis by simp
  next
    case (Cons st rest)
    obtain q1 r1 where el: "edgeLoop js opts g segs st
            (getCandidateEdges g (node_id (currentNode st))
               (rp_direction (seg_relationship (segs ! segmentIdx st))))
            rest results = (q1, r1)"
      by (cases "edgeLoop js opts g segs st
            (getCandidateEdges g (node_id (currentNode st))
               (rp_direction (seg_relationship (segs ! segmentIdx st))))
            rest results") auto
    note l1 = edgeLoop_length [OF el]
    from Suc.IH [of rest results] Suc.IH [of q1 r1] l1 Cons el
    show ?thesis by (auto simp: Let_def)
  qed
qed

lemma startLoop_length:
  "length (startLoop js opts g segs initialNodes results) \<le> max (length results) (maxPathResults opts)"
proof (induction initialNodes arbitrary: results)
  case Nil
  then show ?case by simp
next
  case (Cons n ns)
  from Cons.IH [of "bfsLoop js opts g segs 100000 [initialState n] results"]
    bfsLoop_length [of js opts g segs 100000 "[initialState n]" results]
  show ?case by simp
qed

lemma initialNodesOf_options: "options (snd (initialNodesOf js m g p)) = options m"
  using findMatchingNodes_options [of js m g p]
  by (cases "findMatchingNodes js m g p") (simp add: initialNodesOf_def split: option.splits)

lemma findMatchingPaths_options: "options (snd (findMatchingPaths js m g pat)) = options m"
  using initialNodesOf_options [of js m g "pp_start pat"]
  by (cases "initialNodesOf js m g (pp_start pat)") (simp add: findMatchingPaths_def)

lemma findMatchingPaths_segments:
  "pp_segments pat \<noteq> [] \<Longrightarrow>
   fst (findMatchingPaths js m g pat) = uniqueResults (bfsResults js m g pat)"
  by (cases "initialNodesOf js m g (pp_start pat)") (simp add: findMatchingPaths_def bfsResults_def)

lemma findMatchingPaths_start_only:
  "pp_segments pat = [] \<Longrightarrow>
   fst (findMatchingPaths js m g pat) =
     map (\<lambda>n. \<lparr>nodes = [n], edges = []\<rparr>) (fst (initialNodesOf js m g (pp_start pat)))"
  by (cases "initialNodesOf js m g (pp_start pat)") (simp add: findMatchingPaths_def)

lemma distinctState_initial: "distinctState (initialState n)"
  by (simp add: distinctState_def initialState_def)

lemma distinctState_step:
  "distinctState st \<Longrightarrow> succ_state js opts g segs st e s \<Longrightarrow> distinctState s"
  by (auto simp: distinctState_def succ_state_def continueState_def nextSegmentState_def newPathOf_def)

lemma distinctState_path:
  "distinctState st \<Longrightarrow> succ_path js opts g segs st e p \<Longrightarrow> distinct (butlast (map node_id (nodes p)))"
  by (auto simp: distinctState_def succ_path_def newPathOf_def butlast_append)

section \<open>Lemmas: the runs of a path\<close>

lemma offsetOf_le: "i < length ks \<Longrightarrow> offsetOf ks i + ks ! i \<le> sum_list ks"
proof -
  assume i: "i < length ks"
  have "sum_list (take i ks @ drop i ks) = sum_list (take i ks) + sum_list (drop i ks)"
    by (rule sum_list_append)
  then have split: "sum_list ks = sum_list (take i ks) + sum_list (drop i ks)" by simp
  have "drop i ks = ks ! i # drop (Suc i) ks" using i by (simp add: Cons_nth_drop_Suc)
  then have "sum_list (drop i ks) = ks ! i + sum_list (drop (Suc i) ks)" by simp
  with split show ?thesis by (simp add: offsetOf_def)
qed

lemma offsetOf_snoc: "i \<le> length ks \<Longrightarrow> offsetOf (ks @ [k]) i = offsetOf ks i"
  by (simp add: offsetOf_def)

lemma offsetOf_length: "offsetOf ks (length ks) = sum_list ks"
  by (simp add: offsetOf_def)

lemma stepOk_newPath:
  assumes "j < length (edges (currentPath st))"
    and "length (nodes (currentPath st)) = length (edges (currentPath st)) + 1"
  shows "stepOk js opts g rel (newPathOf st nb e) j = stepOk js opts g rel (currentPath st) j"
  using assms by (simp add: stepOk_def newPathOf_def nth_append)

lemma stepOk_last:
  assumes "length (nodes (currentPath st)) = length (edges (currentPath st)) + 1"
  shows "stepOk js opts g rel (newPathOf st nb e) (length (edges (currentPath st))) =
         edgeMatches js opts g rel (last (nodes (currentPath st))) e nb"
proof -
  from assms have ne: "nodes (currentPath st) \<noteq> []" by auto
  from assms have "last (nodes (currentPath st)) = nodes (currentPath st) ! length (edges (currentPath st))"
    using last_conv_nth [OF ne] by simp
  with assms show ?thesis by (simp add: stepOk_def newPathOf_def nth_append)
qed

lemma node_newPath:
  assumes "k \<le> length (edges (currentPath st))"
    and "length (nodes (currentPath st)) = length (edges (currentPath st)) + 1"
  shows "nodes (newPathOf st nb e) ! k = nodes (currentPath st) ! k"
  using assms by (simp add: newPathOf_def nth_append)

lemma runsMatch_newPath:
  assumes rm: "runsMatch js opts g segs (currentPath st) ks"
    and le: "sum_list ks \<le> length (edges (currentPath st))"
    and len: "length (nodes (currentPath st)) = length (edges (currentPath st)) + 1"
  shows "runsMatch js opts g segs (newPathOf st nb e) ks"
  unfolding runsMatch_def
proof (intro allI impI conjI)
  fix i assume i: "i < length ks"
  from offsetOf_le [OF i] le have bound: "offsetOf ks i + ks ! i \<le> length (edges (currentPath st))" by simp
  from rm i show "hops_ok opts (seg_relationship (segs ! i)) (ks ! i)" by (simp add: runsMatch_def)
  from rm i have "matchesNodePattern js opts (nodes (currentPath st) ! (offsetOf ks i + ks ! i)) (seg_node (segs ! i))"
    by (simp add: runsMatch_def)
  then show "matchesNodePattern js opts (nodes (newPathOf st nb e) ! (offsetOf ks i + ks ! i)) (seg_node (segs ! i))"
    by (simp add: node_newPath [OF bound len])
  fix j assume j: "offsetOf ks i \<le> j \<and> j < offsetOf ks i + ks ! i"
  with bound have jl: "j < length (edges (currentPath st))" by simp
  from rm i j have "stepOk js opts g (seg_relationship (segs ! i)) (currentPath st) j"
    by (simp add: runsMatch_def)
  then show "stepOk js opts g (seg_relationship (segs ! i)) (newPathOf st nb e) j"
    by (simp add: stepOk_newPath [OF jl len])
qed

lemma runsMatch_snoc:
  assumes rm: "runsMatch js opts g segs p ks"
    and ok: "hops_ok opts (seg_relationship (segs ! length ks)) k"
    and run: "\<forall>j. sum_list ks \<le> j \<and> j < sum_list ks + k \<longrightarrow>
                 stepOk js opts g (seg_relationship (segs ! length ks)) p j"
    and node: "matchesNodePattern js opts (nodes p ! (sum_list ks + k)) (seg_node (segs ! length ks))"
  shows "runsMatch js opts g segs p (ks @ [k])"
  unfolding runsMatch_def
proof (intro allI impI)
  fix i assume "i < length (ks @ [k])"
  then consider (old) "i < length ks" | (new) "i = length ks" by fastforce
  then show "hops_ok opts (seg_relationship (segs ! i)) ((ks @ [k]) ! i) \<and>
         (\<forall>j. offsetOf (ks @ [k]) i \<le> j \<and> j < offsetOf (ks @ [k]) i + (ks @ [k]) ! i \<longrightarrow>
              stepOk js opts g (seg_relationship (segs ! i)) p j) \<and>
         matchesNodePattern js opts (nodes p ! (offsetOf (ks @ [k]) i + (ks @ [k]) ! i)) (seg_node (segs ! i))"
  proof cases
    case old
    with rm show ?thesis by (simp add: runsMatch_def offsetOf_snoc nth_append)
  next
    case new
    with ok run node show ?thesis by (simp add: offsetOf_snoc offsetOf_length)
  qed
qed

lemma hopState_initial: "hopState js opts g segs (initialState n)"
  by (simp add: hopState_def initialState_def runsMatch_def)

lemma hops_ok_next:
  assumes "0 < h \<longrightarrow> isVariable rel \<and> h < maxHopsTraversal opts rel"
    and "minHopsOf rel \<le> h + 1"
  shows "hops_ok opts rel (h + 1)"
  using assms by (cases "h = 0") (auto simp: hops_ok_def)

text \<open>The edges of the current segment, with the new edge.\<close>

lemma current_run_newPath:
  assumes len: "length (nodes (currentPath st)) = length (edges (currentPath st)) + 1"
    and lst: "last (nodes (currentPath st)) = currentNode st"
    and run: "\<forall>j. a \<le> j \<and> j < length (edges (currentPath st)) \<longrightarrow> stepOk js opts g rel (currentPath st) j"
    and em: "edgeMatches js opts g rel (currentNode st) e nb"
  shows "\<forall>j. a \<le> j \<and> j < length (edges (newPathOf st nb e)) \<longrightarrow> stepOk js opts g rel (newPathOf st nb e) j"
proof (intro allI impI)
  fix j assume j: "a \<le> j \<and> j < length (edges (newPathOf st nb e))"
  then have "j < length (edges (currentPath st)) \<or> j = length (edges (currentPath st))"
    by (auto simp: newPathOf_def)
  then show "stepOk js opts g rel (newPathOf st nb e) j"
  proof
    assume jl: "j < length (edges (currentPath st))"
    with run j show ?thesis by (simp add: stepOk_newPath [OF jl len])
  next
    assume "j = length (edges (currentPath st))"
    with em lst show ?thesis by (simp add: stepOk_last [OF len])
  qed
qed

lemma hopState_step:
  assumes inv: "hopState js opts g segs st" and succ: "succ_state js opts g segs st e s"
  shows "hopState js opts g segs s"
proof -
  let ?rel = "seg_relationship (segs ! segmentIdx st)"
  note inv' = inv [unfolded hopState_def]
  note len = inv' [THEN conjunct1]
  note lst = inv' [THEN conjunct2, THEN conjunct1]
  note vh = inv' [THEN conjunct2, THEN conjunct2, THEN conjunct2]
  from inv' [THEN conjunct2, THEN conjunct2, THEN conjunct1]
  obtain ks where ks': "length ks = segmentIdx st \<and>
      sum_list ks + varHopCount st = length (edges (currentPath st)) \<and>
      runsMatch js opts g segs (currentPath st) ks \<and>
      (\<forall>j. sum_list ks \<le> j \<and> j < length (edges (currentPath st)) \<longrightarrow> stepOk js opts g ?rel (currentPath st) j)" ..
  note ks = ks' [THEN conjunct1] ks' [THEN conjunct2, THEN conjunct1]
    ks' [THEN conjunct2, THEN conjunct2, THEN conjunct1] ks' [THEN conjunct2, THEN conjunct2, THEN conjunct2]
  from succ [unfolded succ_state_def]
  obtain nb where nb: "node_id nb \<notin> visitedInPath st \<and>
        edgeMatches js opts g ?rel (currentNode st) e nb \<and>
        ((s = continueState st nb e \<and> isVariable ?rel \<and>
          varHopCount st + 1 < maxHopsTraversal opts ?rel) \<or>
         (s = nextSegmentState st nb e \<and> minHopsOf ?rel \<le> varHopCount st + 1 \<and>
          segmentIdx st + 1 < length segs \<and>
          matchesNodePattern js opts nb (seg_node (segs ! segmentIdx st))))" ..
  note em = nb [THEN conjunct2, THEN conjunct1]
  from nb [THEN conjunct2, THEN conjunct2]
  have alt: "(s = continueState st nb e \<and> isVariable ?rel \<and> varHopCount st + 1 < maxHopsTraversal opts ?rel) \<or>
     (s = nextSegmentState st nb e \<and> minHopsOf ?rel \<le> varHopCount st + 1 \<and>
      matchesNodePattern js opts nb (seg_node (segs ! segmentIdx st)))"
    by (elim disjE conjE) simp_all
  let ?np = "newPathOf st nb e"
  have len': "length (nodes ?np) = length (edges ?np) + 1" using len by (simp add: newPathOf_def)
  have lst': "last (nodes ?np) = nb" by (simp add: newPathOf_def)
  have le: "sum_list ks \<le> length (edges (currentPath st))" using ks(2) by simp
  have rm': "runsMatch js opts g segs ?np ks" by (rule runsMatch_newPath [OF ks(3) le len])
  have run': "\<forall>j. sum_list ks \<le> j \<and> j < length (edges ?np) \<longrightarrow> stepOk js opts g ?rel ?np j"
    by (rule current_run_newPath [OF len lst ks(4) em])
  have edges': "length (edges ?np) = length (edges (currentPath st)) + 1" by (simp add: newPathOf_def)
  from alt show ?thesis
  proof
    assume c: "s = continueState st nb e \<and> isVariable ?rel \<and> varHopCount st + 1 < maxHopsTraversal opts ?rel"
    then have s: "currentPath s = ?np" "currentNode s = nb" "segmentIdx s = segmentIdx st"
      "varHopCount s = varHopCount st + 1"
      by (simp_all add: continueState_def)
    have "length ks = segmentIdx s \<and> sum_list ks + varHopCount s = length (edges (currentPath s)) \<and>
          runsMatch js opts g segs (currentPath s) ks \<and>
          (\<forall>j. sum_list ks \<le> j \<and> j < length (edges (currentPath s)) \<longrightarrow>
                  stepOk js opts g (seg_relationship (segs ! segmentIdx s)) (currentPath s) j)"
      using ks(1,2) rm' run' edges' by (simp add: s)
    then have ex: "\<exists>ks. length ks = segmentIdx s \<and> sum_list ks + varHopCount s = length (edges (currentPath s)) \<and>
          runsMatch js opts g segs (currentPath s) ks \<and>
          (\<forall>j. sum_list ks \<le> j \<and> j < length (edges (currentPath s)) \<longrightarrow>
                  stepOk js opts g (seg_relationship (segs ! segmentIdx s)) (currentPath s) j)"
      by (rule exI)
    have "0 < varHopCount s \<longrightarrow> isVariable (seg_relationship (segs ! segmentIdx s)) \<and>
         varHopCount s < maxHopsTraversal opts (seg_relationship (segs ! segmentIdx s))"
      using c [THEN conjunct2] by (simp add: s)
    with ex len' lst' show ?thesis unfolding hopState_def by (simp add: s)
  next
    assume n: "s = nextSegmentState st nb e \<and> minHopsOf ?rel \<le> varHopCount st + 1 \<and>
      matchesNodePattern js opts nb (seg_node (segs ! segmentIdx st))"
    then have s: "currentPath s = ?np" "currentNode s = nb" "segmentIdx s = segmentIdx st + 1"
      "varHopCount s = 0"
      by (simp_all add: nextSegmentState_def)
    let ?k = "varHopCount st + 1"
    let ?ks = "ks @ [?k]"
    have ok: "hops_ok opts (seg_relationship (segs ! length ks)) ?k"
      using hops_ok_next [OF vh] n ks(1) by simp
    have total: "sum_list ks + ?k = length (edges ?np)" using ks(2) edges' by simp
    have run'': "\<forall>j. sum_list ks \<le> j \<and> j < sum_list ks + ?k \<longrightarrow>
                 stepOk js opts g (seg_relationship (segs ! length ks)) ?np j"
      using run' total ks(1) by simp
    have "nodes ?np ! (sum_list ks + ?k) = nb"
      using total len by (simp add: newPathOf_def nth_append)
    with n ks(1) have node: "matchesNodePattern js opts (nodes ?np ! (sum_list ks + ?k)) (seg_node (segs ! length ks))"
      by simp
    have rm'': "runsMatch js opts g segs ?np ?ks" by (rule runsMatch_snoc [OF rm' ok run'' node])
    have "length ?ks = segmentIdx s \<and> sum_list ?ks + varHopCount s = length (edges (currentPath s)) \<and>
          runsMatch js opts g segs (currentPath s) ?ks \<and>
          (\<forall>j. sum_list ?ks \<le> j \<and> j < length (edges (currentPath s)) \<longrightarrow>
                  stepOk js opts g (seg_relationship (segs ! segmentIdx s)) (currentPath s) j)"
      using ks(1) total rm'' by (auto simp: s)
    then have ex: "\<exists>ks. length ks = segmentIdx s \<and> sum_list ks + varHopCount s = length (edges (currentPath s)) \<and>
          runsMatch js opts g segs (currentPath s) ks \<and>
          (\<forall>j. sum_list ks \<le> j \<and> j < length (edges (currentPath s)) \<longrightarrow>
                  stepOk js opts g (seg_relationship (segs ! segmentIdx s)) (currentPath s) j)"
      by (rule exI)
    with len' lst' show ?thesis unfolding hopState_def by (simp add: s)
  qed
qed

lemma hopState_path:
  assumes inv: "hopState js opts g segs st" and seg: "segmentIdx st < length segs"
    and depth: "length (edges (currentPath st)) < maxPathDepth opts"
    and succ: "succ_path js opts g segs st e p"
  shows "hopPath js opts g segs p"
proof -
  let ?rel = "seg_relationship (segs ! segmentIdx st)"
  note inv' = inv [unfolded hopState_def]
  note len = inv' [THEN conjunct1]
  note lst = inv' [THEN conjunct2, THEN conjunct1]
  note vh = inv' [THEN conjunct2, THEN conjunct2, THEN conjunct2]
  from inv' [THEN conjunct2, THEN conjunct2, THEN conjunct1]
  obtain ks where ks': "length ks = segmentIdx st \<and>
      sum_list ks + varHopCount st = length (edges (currentPath st)) \<and>
      runsMatch js opts g segs (currentPath st) ks \<and>
      (\<forall>j. sum_list ks \<le> j \<and> j < length (edges (currentPath st)) \<longrightarrow> stepOk js opts g ?rel (currentPath st) j)" ..
  note ks = ks' [THEN conjunct1] ks' [THEN conjunct2, THEN conjunct1]
    ks' [THEN conjunct2, THEN conjunct2, THEN conjunct1] ks' [THEN conjunct2, THEN conjunct2, THEN conjunct2]
  from succ [unfolded succ_path_def]
  obtain nb where nb: "p = newPathOf st nb e \<and>
        edgeMatches js opts g ?rel (currentNode st) e nb \<and>
        length segs \<le> segmentIdx st + 1 \<and>
        minHopsOf ?rel \<le> varHopCount st + 1 \<and>
        matchesNodePattern js opts nb (seg_node (segs ! segmentIdx st))" ..
  note p = nb [THEN conjunct1]
  note em = nb [THEN conjunct2, THEN conjunct1]
  note fin = nb [THEN conjunct2, THEN conjunct2, THEN conjunct1]
  note mh = nb [THEN conjunct2, THEN conjunct2, THEN conjunct2, THEN conjunct1]
  note mn = nb [THEN conjunct2, THEN conjunct2, THEN conjunct2, THEN conjunct2]
  let ?np = "newPathOf st nb e"
  have len': "length (nodes ?np) = length (edges ?np) + 1" using len by (simp add: newPathOf_def)
  have le: "sum_list ks \<le> length (edges (currentPath st))" using ks(2) by simp
  have rm': "runsMatch js opts g segs ?np ks" by (rule runsMatch_newPath [OF ks(3) le len])
  have run': "\<forall>j. sum_list ks \<le> j \<and> j < length (edges ?np) \<longrightarrow> stepOk js opts g ?rel ?np j"
    by (rule current_run_newPath [OF len lst ks(4) em])
  have edges': "length (edges ?np) = length (edges (currentPath st)) + 1" by (simp add: newPathOf_def)
  let ?k = "varHopCount st + 1"
  let ?ks = "ks @ [?k]"
  have ok: "hops_ok opts (seg_relationship (segs ! length ks)) ?k"
    using hops_ok_next [OF vh] mh ks(1) by simp
  have total: "sum_list ks + ?k = length (edges ?np)" using ks(2) edges' by simp
  have run'': "\<forall>j. sum_list ks \<le> j \<and> j < sum_list ks + ?k \<longrightarrow>
               stepOk js opts g (seg_relationship (segs ! length ks)) ?np j"
    using run' total ks(1) by simp
  have "nodes ?np ! (sum_list ks + ?k) = nb"
    using total len by (simp add: newPathOf_def nth_append)
  with mn ks(1) have node: "matchesNodePattern js opts (nodes ?np ! (sum_list ks + ?k)) (seg_node (segs ! length ks))"
    by simp
  have rm'': "runsMatch js opts g segs ?np ?ks" by (rule runsMatch_snoc [OF rm' ok run'' node])
  have "length ?ks = length segs \<and> sum_list ?ks = length (edges p) \<and> runsMatch js opts g segs p ?ks"
    using ks(1) fin seg total rm'' by (simp add: p)
  then have "\<exists>ks. length ks = length segs \<and> sum_list ks = length (edges p) \<and> runsMatch js opts g segs p ks"
    by (rule exI)
  moreover have "length (edges p) \<le> maxPathDepth opts" using depth by (simp add: p newPathOf_def)
  moreover have "length (nodes p) = length (edges p) + 1" using len' by (simp add: p)
  ultimately show ?thesis unfolding hopPath_def by simp
qed

lemma bfsResults_hopPath:
  "\<forall>p \<in> set (bfsResults js m g pat). hopPath js (options m) g (pp_segments pat) p"
  unfolding bfsResults_def
proof (rule startLoop_inv [where SI = "hopState js (options m) g (pp_segments pat)"])
  show "\<forall>p \<in> set []. hopPath js (options m) g (pp_segments pat) p" by simp
  show "\<And>n. hopState js (options m) g (pp_segments pat) (initialState n)" by (rule hopState_initial)
qed (erule (1) hopState_step, erule (3) hopState_path)

lemma findMatchingPaths_hopPath:
  assumes "p \<in> set (fst (findMatchingPaths js m g pat))"
  shows "hopPath js (options m) g (pp_segments pat) p"
proof (cases "pp_segments pat = []")
  case True
  with assms show ?thesis by (auto simp: findMatchingPaths_start_only hopPath_def runsMatch_def)
next
  case False
  with assms have "p \<in> set (bfsResults js m g pat)"
    using uniqueResults_subset by (auto simp: findMatchingPaths_segments)
  with bfsResults_hopPath show ?thesis by blast
qed

lemma hops_ok_max:
  assumes "hops_ok opts rel k" and "rp_maxHops rel = Some h"
  shows "k \<le> max 1 h"
  using assms by (auto simp: hops_ok_def maxHopsTraversal_def)

section \<open>Lemmas: enrichment\<close>

lemma enrichNode_boundIdOf:
  "enrichNode b np =
     (case boundIdOf b (np_variable np) of
        Some i \<Rightarrow> np\<lparr>np_properties := AList.update ''id'' (JStr i) (np_properties np)\<rparr>
      | None \<Rightarrow> np)"
proof (cases "np_variable np")
  case None
  then show ?thesis by (simp add: enrichNode_def boundIdOf_def)
next
  case (Some v)
  show ?thesis
  proof (cases "b v")
    case None
    with Some show ?thesis by (simp add: enrichNode_def boundIdOf_def)
  next
    case (Some bv)
    with \<open>np_variable np = Some v\<close> show ?thesis
      by (cases bv) (simp_all add: enrichNode_def boundIdOf_def)
  qed
qed

lemma prefix_nth: "prefix xs ys \<Longrightarrow> i < length xs \<Longrightarrow> ys ! i = xs ! i"
  by (auto simp: prefix_def nth_append)

lemma prefix_list_update: "prefix xs ys \<Longrightarrow> length xs \<le> a \<Longrightarrow> prefix xs (ys[a := v])"
  by (auto simp: prefix_def list_update_append)

lemma heapExtends_refl: "heapExtends h h"
  by (simp add: heapExtends_def)

lemma heapExtends_trans: "heapExtends h1 h2 \<Longrightarrow> heapExtends h2 h3 \<Longrightarrow> heapExtends h1 h3"
  unfolding heapExtends_def by (meson prefix_order.trans)

text \<open>What a longer heap keeps of a pattern.\<close>

lemma heapExtends_node:
  assumes "heapExtends h h'" and "wfNodePattern h a"
  shows "wfNodePattern h' a" and "readNodePattern h' a = readNodePattern h a"
    and "nodePatterns h' ! a = nodePatterns h ! a"
proof -
  from assms(1) have p: "prefix (propertyObjects h) (propertyObjects h')"
    and l: "prefix (labelArrays h) (labelArrays h')"
    and n: "prefix (nodePatterns h) (nodePatterns h')"
    by (simp_all add: heapExtends_def)
  from assms(2) have a: "a < length (nodePatterns h)"
    and la: "npo_labels (nodePatterns h ! a) < length (labelArrays h)"
    and pa: "npo_properties (nodePatterns h ! a) < length (propertyObjects h)"
    by (simp_all add: wfNodePattern_def)
  show eq: "nodePatterns h' ! a = nodePatterns h ! a" by (rule prefix_nth [OF n a])
  from a la pa prefix_length_le [OF p] prefix_length_le [OF l] prefix_length_le [OF n]
  show "wfNodePattern h' a" by (simp add: wfNodePattern_def eq)
  show "readNodePattern h' a = readNodePattern h a"
    by (simp add: readNodePattern_def eq prefix_nth [OF l la] prefix_nth [OF p pa])
qed

lemma heapExtends_relationship:
  assumes "heapExtends h h'" and "wfRelationshipPattern h a"
  shows "wfRelationshipPattern h' a" and "readRelationshipPattern h' a = readRelationshipPattern h a"
proof -
  from assms(1) have p: "prefix (propertyObjects h) (propertyObjects h')"
    and r: "prefix (relationshipPatterns h) (relationshipPatterns h')"
    by (simp_all add: heapExtends_def)
  from assms(2) have a: "a < length (relationshipPatterns h)"
    and pa: "rpo_properties (relationshipPatterns h ! a) < length (propertyObjects h)"
    by (simp_all add: wfRelationshipPattern_def)
  note eq = prefix_nth [OF r a]
  from a pa prefix_length_le [OF p] prefix_length_le [OF r]
  show "wfRelationshipPattern h' a" by (simp add: wfRelationshipPattern_def eq)
  show "readRelationshipPattern h' a = readRelationshipPattern h a"
    by (simp add: readRelationshipPattern_def eq prefix_nth [OF p pa])
qed

lemma heapExtends_segment:
  assumes "heapExtends h h'" and "wfSegment h a"
  shows "wfSegment h' a" and "readSegment h' a = readSegment h a"
    and "segmentObjects h' ! a = segmentObjects h ! a"
proof -
  from assms(1) have s: "prefix (segmentObjects h) (segmentObjects h')"
    by (simp add: heapExtends_def)
  from assms(2) have a: "a < length (segmentObjects h)"
    and r: "wfRelationshipPattern h (sgo_relationship (segmentObjects h ! a))"
    and n: "wfNodePattern h (sgo_node (segmentObjects h ! a))"
    by (simp_all add: wfSegment_def)
  show eq: "segmentObjects h' ! a = segmentObjects h ! a" by (rule prefix_nth [OF s a])
  from a prefix_length_le [OF s] heapExtends_relationship(1) [OF assms(1) r]
    heapExtends_node(1) [OF assms(1) n]
  show "wfSegment h' a" by (simp add: wfSegment_def eq)
  show "readSegment h' a = readSegment h a"
    by (simp add: readSegment_def eq heapExtends_relationship(2) [OF assms(1) r]
        heapExtends_node(2) [OF assms(1) n])
qed

lemma heapExtends_segments:
  assumes "heapExtends h h'" and "list_all (wfSegment h) as"
  shows "list_all (wfSegment h') as" and "map (readSegment h') as = map (readSegment h) as"
  using assms(2) heapExtends_segment(1,2) [OF assms(1)] by (simp_all add: list_all_iff)

lemma heapExtends_pathPattern:
  assumes "heapExtends h h'" and "wfPathPattern h a"
  shows "wfPathPattern h' a" and "readPathPattern h' a = readPathPattern h a"
    and "pathPatterns h' ! a = pathPatterns h ! a"
    and "segmentArrays h' ! ppo_segments (pathPatterns h ! a) =
         segmentArrays h ! ppo_segments (pathPatterns h ! a)"
proof -
  from assms(1) have p: "prefix (pathPatterns h) (pathPatterns h')"
    and s: "prefix (segmentArrays h) (segmentArrays h')"
    by (simp_all add: heapExtends_def)
  from assms(2) have a: "a < length (pathPatterns h)"
    and n: "wfNodePattern h (ppo_start (pathPatterns h ! a))"
    and sa: "ppo_segments (pathPatterns h ! a) < length (segmentArrays h)"
    and ss: "list_all (wfSegment h) (segmentArrays h ! ppo_segments (pathPatterns h ! a))"
    by (simp_all add: wfPathPattern_def)
  show eq: "pathPatterns h' ! a = pathPatterns h ! a" by (rule prefix_nth [OF p a])
  show eqs: "segmentArrays h' ! ppo_segments (pathPatterns h ! a) =
         segmentArrays h ! ppo_segments (pathPatterns h ! a)" by (rule prefix_nth [OF s sa])
  from a sa prefix_length_le [OF p] prefix_length_le [OF s] heapExtends_node(1) [OF assms(1) n]
    heapExtends_segments(1) [OF assms(1) ss]
  show "wfPathPattern h' a" by (simp add: wfPathPattern_def eq eqs)
  show "readPathPattern h' a = readPathPattern h a"
    by (simp add: readPathPattern_def eq eqs heapExtends_node(2) [OF assms(1) n]
        heapExtends_segments(2) [OF assms(1) ss])
qed

text \<open>The clones: new objects that read as their originals.\<close>

lemma cloneNodePattern_spec:
  assumes "wfNodePattern h a" and "cloneNodePattern a h = (c, h')"
  shows "heapExtends h h'" and "c = length (nodePatterns h)"
    and "length (nodePatterns h') = Suc (length (nodePatterns h))"
    and "wfNodePattern h' c" and "readNodePattern h' c = readNodePattern h a"
    and "relationshipPatterns h' = relationshipPatterns h"
    and "segmentObjects h' = segmentObjects h"
    and "segmentArrays h' = segmentArrays h" and "pathPatterns h' = pathPatterns h"
  using assms
  by (auto simp: cloneNodePattern_def newProperties_def newNodePattern_def Let_def heapExtends_def
      wfNodePattern_def readNodePattern_def nth_append)

lemma cloneRelationshipPattern_spec:
  assumes "wfRelationshipPattern h a" and "cloneRelationshipPattern a h = (c, h')"
  shows "heapExtends h h'" and "c = length (relationshipPatterns h)"
    and "wfRelationshipPattern h' c" and "readRelationshipPattern h' c = readRelationshipPattern h a"
    and "nodePatterns h' = nodePatterns h"
    and "segmentObjects h' = segmentObjects h"
    and "segmentArrays h' = segmentArrays h" and "pathPatterns h' = pathPatterns h"
  using assms
  by (auto simp: cloneRelationshipPattern_def newProperties_def newRelationshipPattern_def Let_def
      heapExtends_def wfRelationshipPattern_def readRelationshipPattern_def nth_append)

lemma cloneSegment_spec:
  assumes wf: "wfSegment h a" and cl: "cloneSegment a h = (c, h')"
  shows "heapExtends h h'" and "c = length (segmentObjects h)"
    and "length (segmentObjects h') = Suc (length (segmentObjects h))"
    and "length (nodePatterns h') = Suc (length (nodePatterns h))"
    and "wfSegment h' c" and "readSegment h' c = readSegment h a"
    and "sgo_node (segmentObjects h' ! c) = length (nodePatterns h)"
    and "segmentArrays h' = segmentArrays h" and "pathPatterns h' = pathPatterns h"
proof -
  obtain ra h1 where r: "cloneRelationshipPattern (sgo_relationship (segmentObjects h ! a)) h = (ra, h1)"
    by (cases "cloneRelationshipPattern (sgo_relationship (segmentObjects h ! a)) h")
  obtain na h2 where n: "cloneNodePattern (sgo_node (segmentObjects h ! a)) h1 = (na, h2)"
    by (cases "cloneNodePattern (sgo_node (segmentObjects h ! a)) h1")
  from wf have wr: "wfRelationshipPattern h (sgo_relationship (segmentObjects h ! a))"
    and wn: "wfNodePattern h (sgo_node (segmentObjects h ! a))"
    by (simp_all add: wfSegment_def)
  note R = cloneRelationshipPattern_spec [OF wr r]
  note wn1 = heapExtends_node [OF R(1) wn]
  note N = cloneNodePattern_spec [OF wn1(1) n]
  note wr2 = heapExtends_relationship [OF N(1) R(3)]
  from cl r n have c: "c = length (segmentObjects h2)"
    and h': "h' = h2\<lparr>segmentObjects := segmentObjects h2 @ [\<lparr>sgo_relationship = ra, sgo_node = na\<rparr>]\<rparr>"
    by (auto simp: cloneSegment_def Let_def newSegment_def)
  have e2: "heapExtends h2 h'" by (simp add: h' heapExtends_def)
  have so: "segmentObjects h2 = segmentObjects h" by (simp add: N(7) R(6))
  show "heapExtends h h'"
    by (rule heapExtends_trans [OF heapExtends_trans [OF R(1) N(1)] e2])
  show "c = length (segmentObjects h)" by (simp add: c so)
  show "length (segmentObjects h') = Suc (length (segmentObjects h))" by (simp add: h' so)
  show "length (nodePatterns h') = Suc (length (nodePatterns h))" by (simp add: h' N(3) R(5))
  have at: "segmentObjects h' ! c = \<lparr>sgo_relationship = ra, sgo_node = na\<rparr>" by (simp add: h' c)
  have rn: "readNodePattern h' na = readNodePattern h2 na" "wfNodePattern h' na"
    using N(4) by (simp_all add: h' readNodePattern_def wfNodePattern_def)
  have rr: "readRelationshipPattern h' ra = readRelationshipPattern h2 ra" "wfRelationshipPattern h' ra"
    using wr2(1) by (simp_all add: h' readRelationshipPattern_def wfRelationshipPattern_def)
  show "wfSegment h' c" using rn(2) rr(2) by (simp add: wfSegment_def at) (simp add: h' c)
  show "readSegment h' c = readSegment h a"
    by (simp add: readSegment_def at rn(1) rr(1) N(5) wn1(2) wr2(2) R(4))
  show "sgo_node (segmentObjects h' ! c) = length (nodePatterns h)" by (simp add: at N(2) R(5))
  show "segmentArrays h' = segmentArrays h" by (simp add: h' N(8) R(7))
  show "pathPatterns h' = pathPatterns h" by (simp add: h' N(9) R(8))
qed

lemma cloneSegments_spec:
  "list_all (wfSegment h) as \<Longrightarrow> cloneSegments as h = (cs, h') \<Longrightarrow>
   heapExtends h h' \<and> length cs = length as \<and>
   length (nodePatterns h') = length (nodePatterns h) + length as \<and>
   segmentArrays h' = segmentArrays h \<and> pathPatterns h' = pathPatterns h \<and>
   (\<forall>k < length as. wfSegment h' (cs ! k) \<and> readSegment h' (cs ! k) = readSegment h (as ! k) \<and>
        sgo_node (segmentObjects h' ! (cs ! k)) = length (nodePatterns h) + k)"
proof (induction as arbitrary: h cs h')
  case Nil
  then show ?case by (simp add: heapExtends_refl)
next
  case (Cons a rest)
  obtain c h1 where c: "cloneSegment a h = (c, h1)" by (cases "cloneSegment a h")
  obtain cs' h2 where cs': "cloneSegments rest h1 = (cs', h2)" by (cases "cloneSegments rest h1")
  from Cons.prems(2) c cs' have cs: "cs = c # cs'" and h': "h' = h2" by (simp_all add: Let_def)
  from Cons.prems(1) have wa: "wfSegment h a" and wrest: "list_all (wfSegment h) rest" by simp_all
  note C = cloneSegment_spec [OF wa c]
  note wrest1 = heapExtends_segments [OF C(1) wrest]
  note IH = Cons.IH [OF wrest1(1) cs']
  note e12 = IH [THEN conjunct1]
  note len = IH [THEN conjunct2, THEN conjunct1]
  note nlen = IH [THEN conjunct2, THEN conjunct2, THEN conjunct1]
  note sarr = IH [THEN conjunct2, THEN conjunct2, THEN conjunct2, THEN conjunct1]
  note pats = IH [THEN conjunct2, THEN conjunct2, THEN conjunct2, THEN conjunct2, THEN conjunct1]
  note each = IH [THEN conjunct2, THEN conjunct2, THEN conjunct2, THEN conjunct2, THEN conjunct2]
  note head = heapExtends_segment [OF e12 C(5)]
  have all: "\<forall>k < length (a # rest). wfSegment h2 ((c # cs') ! k) \<and>
        readSegment h2 ((c # cs') ! k) = readSegment h ((a # rest) ! k) \<and>
        sgo_node (segmentObjects h2 ! ((c # cs') ! k)) = length (nodePatterns h) + k"
  proof (intro allI impI)
    fix k assume k: "k < length (a # rest)"
    show "wfSegment h2 ((c # cs') ! k) \<and>
        readSegment h2 ((c # cs') ! k) = readSegment h ((a # rest) ! k) \<and>
        sgo_node (segmentObjects h2 ! ((c # cs') ! k)) = length (nodePatterns h) + k"
    proof (cases k)
      case 0
      then show ?thesis by (simp add: head C(6) C(7))
    next
      case (Suc j)
      with k have j: "j < length rest" by simp
      from each j have "wfSegment h2 (cs' ! j)"
        and "readSegment h2 (cs' ! j) = readSegment h1 (rest ! j)"
        and "sgo_node (segmentObjects h2 ! (cs' ! j)) = length (nodePatterns h1) + j"
        by simp_all
      moreover from wrest j have "wfSegment h (rest ! j)" by (simp add: list_all_length)
      then have "readSegment h1 (rest ! j) = readSegment h (rest ! j)"
        by (rule heapExtends_segment(2) [OF C(1)])
      ultimately show ?thesis by (simp add: Suc C(4))
    qed
  qed
  show ?case
    unfolding cs h'
    using heapExtends_trans [OF C(1) e12] len nlen sarr pats all
    by (simp add: C(4) C(8) C(9))
qed

text \<open>The assignment of an id constraint: one node pattern changes, at its properties.\<close>

lemma setIdConstraint_spec:
  assumes "wfNodePattern h a"
  shows "propertyObjects (setIdConstraint a i h) =
           propertyObjects h @ [AList.update ''id'' (JStr i) (propertyObjects h ! npo_properties (nodePatterns h ! a))]"
    and "nodePatterns (setIdConstraint a i h) =
           (nodePatterns h)[a := (nodePatterns h ! a)\<lparr>npo_properties := length (propertyObjects h)\<rparr>]"
    and "labelArrays (setIdConstraint a i h) = labelArrays h"
    and "relationshipPatterns (setIdConstraint a i h) = relationshipPatterns h"
    and "segmentObjects (setIdConstraint a i h) = segmentObjects h"
    and "segmentArrays (setIdConstraint a i h) = segmentArrays h"
    and "pathPatterns (setIdConstraint a i h) = pathPatterns h"
    and "wfNodePattern (setIdConstraint a i h) a"
    and "readNodePattern (setIdConstraint a i h) a =
           (readNodePattern h a)\<lparr>np_properties :=
              AList.update ''id'' (JStr i) (np_properties (readNodePattern h a))\<rparr>"
  using assms
  by (simp_all add: setIdConstraint_def newProperties_def Let_def wfNodePattern_def readNodePattern_def)

lemma setIdConstraint_other:
  assumes "wfNodePattern h a" and "wfNodePattern h c" and "c \<noteq> a"
  shows "wfNodePattern (setIdConstraint a i h) c"
    and "readNodePattern (setIdConstraint a i h) c = readNodePattern h c"
  using assms
  by (simp_all add: setIdConstraint_def newProperties_def Let_def wfNodePattern_def readNodePattern_def
      nth_append)

lemma fold_upt_invariant:
  assumes "I 0 h" and "\<And>k s. k < n \<Longrightarrow> I k s \<Longrightarrow> I (Suc k) (f k s)"
  shows "I n (fold f [0 ..< n] h)"
  using assms(2)
proof (induction n)
  case 0
  with assms(1) show ?case by simp
next
  case (Suc n)
  have "I n (fold f [0 ..< n] h)" by (rule Suc.IH) (simp add: Suc.prems)
  then have "I (Suc n) (f n (fold f [0 ..< n] h))" by (rule Suc.prems [OF lessI])
  then show ?case by simp
qed

text \<open>One more node pattern of the clone enriched.\<close>

lemma enrichedUpTo_step:
  assumes inv: "enrichedUpTo b h0 hc nps k h" and k: "k < length nps"
  shows "enrichedUpTo b h0 hc nps (Suc k)
           (case boundIdOf b (np_variable (nps ! k)) of
              Some i \<Rightarrow> setIdConstraint (length (nodePatterns h0) + k) i h
            | None \<Rightarrow> h)"
proof (cases "boundIdOf b (np_variable (nps ! k))")
  case None
  then have "enrichNode b (nps ! k) = nps ! k" by (simp add: enrichNode_boundIdOf)
  then have "\<And>j. (if j < Suc k then enrichNode b (nps ! j) else nps ! j) =
                  (if j < k then enrichNode b (nps ! j) else nps ! j)"
    by (simp add: less_Suc_eq)
  with inv None show ?thesis by (simp add: enrichedUpTo_def)
next
  case (Some i)
  let ?a = "length (nodePatterns h0) + k"
  let ?h = "setIdConstraint ?a i h"
  note I = inv [unfolded enrichedUpTo_def]
  note nodes = I [THEN conjunct2, THEN conjunct2, THEN conjunct2, THEN conjunct2, THEN conjunct2,
      THEN conjunct2, THEN conjunct2]
  from nodes k have wa: "wfNodePattern h ?a" and ra: "readNodePattern h ?a = nps ! k" by simp_all
  note S = setIdConstraint_spec [OF wa, of i]
  have each: "\<forall>j < length nps.
        wfNodePattern ?h (length (nodePatterns h0) + j) \<and>
        readNodePattern ?h (length (nodePatterns h0) + j) =
          (if j < Suc k then enrichNode b (nps ! j) else nps ! j)"
  proof (intro allI impI)
    fix j assume j: "j < length nps"
    show "wfNodePattern ?h (length (nodePatterns h0) + j) \<and>
        readNodePattern ?h (length (nodePatterns h0) + j) =
          (if j < Suc k then enrichNode b (nps ! j) else nps ! j)"
    proof (cases "j = k")
      case True
      with Some show ?thesis by (simp add: S(8) S(9) ra enrichNode_boundIdOf)
    next
      case False
      from nodes j have wj: "wfNodePattern h (length (nodePatterns h0) + j)"
        and rj: "readNodePattern h (length (nodePatterns h0) + j) =
                   (if j < k then enrichNode b (nps ! j) else nps ! j)" by simp_all
      from False have ne: "length (nodePatterns h0) + j \<noteq> ?a" by simp
      from False have "(j < Suc k) = (j < k)" by auto
      with setIdConstraint_other [OF wa wj ne, of i] rj show ?thesis by simp
    qed
  qed
  from I have "prefix (propertyObjects hc) (propertyObjects h)" by simp
  then have p: "prefix (propertyObjects hc) (propertyObjects ?h)"
    unfolding S(1) by (rule prefix_order.trans) simp
  from I have "prefix (nodePatterns h0) (nodePatterns h)" by simp
  then have n: "prefix (nodePatterns h0) (nodePatterns ?h)"
    unfolding S(2) by (rule prefix_list_update) simp
  from I p n each Some show ?thesis
    by (simp add: enrichedUpTo_def S(3) S(4) S(5) S(6) S(7))
qed

section \<open>Lemmas: the caches\<close>

lemma cachesCurrent_new: "cachesCurrent js (PatternMatcher opts) g"
  by (simp add: cachesCurrent_def PatternMatcher_def)

lemma cachesCurrent_clearCache: "cachesCurrent js (clearCache m) g"
  by (simp add: cachesCurrent_def clearCache_def)

lemma clearCache_options: "options (clearCache m) = options m"
  by (simp add: clearCache_def)

lemma labelMatches_single:
  "labelMatches js opts (getNodeLabels n) l = (normalizeLabel js opts (node_label n) = normalizeLabel js opts l)"
  by (simp add: labelMatches_def getNodeLabels_def)

text \<open>
  What matchesNodePattern tests: every required label against the primary label of the
  node, both normalised, and the property constraints if there are any.
\<close>

lemma matchesNodePattern_primary_label:
  "matchesNodePattern js opts n p \<longleftrightarrow>
     (\<forall>l \<in> set (np_labels p). normalizeLabel js opts (node_label n) = normalizeLabel js opts l) \<and>
     (np_properties p = [] \<or> nodePropertiesMatch js opts n (np_properties p))"
  by (auto simp: matchesNodePattern_def labelMatches_single list_all_iff)

text \<open>With current caches a lookup by label gives what a scan of the graph gives.\<close>

lemma getNodesByLabel_current:
  assumes "cachesCurrent js m g"
  shows "fst (getNodesByLabel js m g l) =
           List.map_filter (getNode g)
             (map node_id (filter (\<lambda>n. normalizeLabel js (options m) (node_label n) = normalizeLabel js (options m) l)
                (graph_nodes g)))"
proof (cases "labelCache m (normalizeLabel js (options m) l)")
  case None
  then show ?thesis
    by (simp add: getNodesByLabel_def Let_def findNodes_def labelMatches_single)
next
  case (Some ids)
  with assms have "ids = map node_id (filter (\<lambda>n. normalizeLabel js (options m) (node_label n) = normalizeLabel js (options m) l)
                (graph_nodes g))"
    by (simp add: cachesCurrent_def)
  with Some show ?thesis by (simp add: getNodesByLabel_def Let_def)
qed

lemma getNodesByLabel_cachesCurrent:
  assumes "cachesCurrent js m g"
  shows "cachesCurrent js (snd (getNodesByLabel js m g l)) g"
proof (cases "labelCache m (normalizeLabel js (options m) l)")
  case None
  with assms show ?thesis
    by (auto simp: getNodesByLabel_def Let_def findNodes_def labelMatches_single cachesCurrent_def)
next
  case (Some ids)
  with assms show ?thesis by (simp add: getNodesByLabel_def Let_def)
qed

lemma getRelationshipsByType_current:
  assumes "cachesCurrent js m g"
  shows "fst (getRelationshipsByType js m g ty) =
           List.map_filter (\<lambda>(s, t, l). getEdge g s t l)
             (map (\<lambda>e. (source e, target e, edge_label e))
               (filter (\<lambda>e. normalizeLabel js (options m) (edge_label e) = normalizeLabel js (options m) ty)
                  (graph_edges g)))"
proof (cases "typeCache m (normalizeLabel js (options m) ty)")
  case None
  then show ?thesis
    by (simp add: getRelationshipsByType_def Let_def findEdges_def typeMatches_def)
next
  case (Some ids)
  with assms have "ids = map (\<lambda>e. (source e, target e, edge_label e))
               (filter (\<lambda>e. normalizeLabel js (options m) (edge_label e) = normalizeLabel js (options m) ty)
                  (graph_edges g))"
    by (simp add: cachesCurrent_def)
  with Some show ?thesis by (simp add: getRelationshipsByType_def Let_def)
qed

lemma getRelationshipsByType_cachesCurrent:
  assumes "cachesCurrent js m g"
  shows "cachesCurrent js (snd (getRelationshipsByType js m g ty)) g"
proof (cases "typeCache m (normalizeLabel js (options m) ty)")
  case None
  with assms show ?thesis
    by (auto simp: getRelationshipsByType_def Let_def findEdges_def typeMatches_def cachesCurrent_def)
next
  case (Some ids)
  with assms show ?thesis by (simp add: getRelationshipsByType_def Let_def)
qed

lemma getRelationshipsByType_options: "options (snd (getRelationshipsByType js m g ty)) = options m"
  by (simp add: getRelationshipsByType_def Let_def split: option.splits)

text \<open>Two matchers with the same options and current caches answer a query alike.\<close>

lemma findMatchingNodes_current:
  assumes "cachesCurrent js m g" and "cachesCurrent js m' g" and "options m' = options m"
  shows "fst (findMatchingNodes js m' g p) = fst (findMatchingNodes js m g p)"
proof (cases "np_labels p")
  case Nil
  with assms(3) show ?thesis by (simp add: findMatchingNodes_def)
next
  case (Cons l ls)
  have "fst (getNodesByLabel js m' g l) = fst (getNodesByLabel js m g l)"
    by (simp add: getNodesByLabel_current [OF assms(1)] getNodesByLabel_current [OF assms(2)] assms(3))
  with Cons assms(3) show ?thesis
    by (cases "getNodesByLabel js m g l"; cases "getNodesByLabel js m' g l") (simp add: findMatchingNodes_def)
qed

lemma findMatchingNodes_cachesCurrent:
  assumes "cachesCurrent js m g"
  shows "cachesCurrent js (snd (findMatchingNodes js m g p)) g"
proof (cases "np_labels p")
  case Nil
  with assms show ?thesis by (simp add: findMatchingNodes_def)
next
  case (Cons l ls)
  with getNodesByLabel_cachesCurrent [OF assms, of l] show ?thesis
    by (cases "getNodesByLabel js m g l") (simp add: findMatchingNodes_def)
qed

lemma initialNodesOf_current:
  assumes "cachesCurrent js m g" and "cachesCurrent js m' g" and "options m' = options m"
  shows "fst (initialNodesOf js m' g p) = fst (initialNodesOf js m g p)"
  using findMatchingNodes_current [OF assms, of p]
  by (cases "findMatchingNodes js m g p"; cases "findMatchingNodes js m' g p")
    (simp add: initialNodesOf_def split: option.splits)

lemma initialNodesOf_cachesCurrent:
  assumes "cachesCurrent js m g"
  shows "cachesCurrent js (snd (initialNodesOf js m g p)) g"
  using findMatchingNodes_cachesCurrent [OF assms, of p]
  by (cases "findMatchingNodes js m g p") (simp add: initialNodesOf_def split: option.splits)

lemma findMatchingPaths_current:
  assumes "cachesCurrent js m g" and "cachesCurrent js m' g" and "options m' = options m"
  shows "fst (findMatchingPaths js m' g p) = fst (findMatchingPaths js m g p)"
  using initialNodesOf_current [OF assms, of "pp_start p"] assms(3)
  by (cases "initialNodesOf js m g (pp_start p)"; cases "initialNodesOf js m' g (pp_start p)")
    (simp add: findMatchingPaths_def)

lemma findMatchingPaths_cachesCurrent:
  assumes "cachesCurrent js m g"
  shows "cachesCurrent js (snd (findMatchingPaths js m g p)) g"
  using initialNodesOf_cachesCurrent [OF assms, of "pp_start p"]
  by (cases "initialNodesOf js m g (pp_start p)") (simp add: findMatchingPaths_def)

lemma findMatchingRelationships_current:
  assumes "cachesCurrent js m g" and "cachesCurrent js m' g" and "options m' = options m"
  shows "fst (findMatchingRelationships js m' g p sid) = fst (findMatchingRelationships js m g p sid)"
proof (cases "truthy sid")
  case True
  then show ?thesis
    by (simp add: findMatchingRelationships_def assms(3) split: option.splits)
next
  case noSource: False
  show ?thesis
  proof (cases "truthy (rp_type p)")
    case True
    then obtain ty where ty: "rp_type p = Some ty" by (cases "rp_type p") auto
    have "fst (getRelationshipsByType js m' g ty) = fst (getRelationshipsByType js m g ty)"
      by (simp add: getRelationshipsByType_current [OF assms(1)]
          getRelationshipsByType_current [OF assms(2)] assms(3))
    with noSource True ty show ?thesis
      by (cases "getRelationshipsByType js m g ty"; cases "getRelationshipsByType js m' g ty")
        (simp add: findMatchingRelationships_def assms(3))
  next
    case False
    with noSource show ?thesis unfolding findMatchingRelationships_def assms(3) by simp
  qed
qed

lemma findMatchingRelationships_cachesCurrent:
  assumes "cachesCurrent js m g"
  shows "cachesCurrent js (snd (findMatchingRelationships js m g p sid)) g"
proof (cases "truthy sid")
  case True
  with assms show ?thesis
    by (simp add: findMatchingRelationships_def split: option.splits)
next
  case noSource: False
  show ?thesis
  proof (cases "truthy (rp_type p)")
    case True
    then obtain ty where ty: "rp_type p = Some ty" by (cases "rp_type p") auto
    with noSource True getRelationshipsByType_cachesCurrent [OF assms, of ty] show ?thesis
      by (cases "getRelationshipsByType js m g ty") (simp add: findMatchingRelationships_def)
  next
    case False
    with noSource assms show ?thesis by (simp add: findMatchingRelationships_def)
  qed
qed

lemma findMatchingRelationships_options:
  "options (snd (findMatchingRelationships js m g p sid)) = options m"
proof (cases "truthy sid")
  case True
  then show ?thesis
    by (simp add: findMatchingRelationships_def split: option.splits)
next
  case noSource: False
  show ?thesis
  proof (cases "truthy (rp_type p)")
    case True
    then obtain ty where ty: "rp_type p = Some ty" by (cases "rp_type p") auto
    with noSource True getRelationshipsByType_options [of js m g ty] show ?thesis
      by (cases "getRelationshipsByType js m g ty") (simp add: findMatchingRelationships_def)
  next
    case False
    with noSource show ?thesis by (simp add: findMatchingRelationships_def)
  qed
qed

lemma runQuery_current:
  assumes "cachesCurrent js m g" and "cachesCurrent js m' g" and "options m' = options m"
  shows "fst (runQuery js m' g q) = fst (runQuery js m g q)"
proof (cases q)
  case (NodeQuery p)
  with findMatchingNodes_current [OF assms, of p] show ?thesis
    by (cases "findMatchingNodes js m g p"; cases "findMatchingNodes js m' g p") (simp add: runQuery_def)
next
  case (PathQuery p)
  with findMatchingPaths_current [OF assms, of p] show ?thesis
    by (cases "findMatchingPaths js m g p"; cases "findMatchingPaths js m' g p") (simp add: runQuery_def)
next
  case (RelationshipQuery p sid)
  with findMatchingRelationships_current [OF assms, of p sid] show ?thesis
    by (cases "findMatchingRelationships js m g p sid"; cases "findMatchingRelationships js m' g p sid")
      (simp add: runQuery_def)
qed

lemma runQuery_options: "options (snd (runQuery js m g q)) = options m"
proof (cases q)
  case (NodeQuery p)
  with findMatchingNodes_options [of js m g p] show ?thesis
    by (cases "findMatchingNodes js m g p") (simp add: runQuery_def)
next
  case (PathQuery p)
  with findMatchingPaths_options [of js m g p] show ?thesis
    by (cases "findMatchingPaths js m g p") (simp add: runQuery_def)
next
  case (RelationshipQuery p sid)
  with findMatchingRelationships_options [of js m g p sid] show ?thesis
    by (cases "findMatchingRelationships js m g p sid") (simp add: runQuery_def)
qed

lemma runQuery_cachesCurrent:
  assumes "cachesCurrent js m g"
  shows "cachesCurrent js (snd (runQuery js m g q)) g"
proof (cases q)
  case (NodeQuery p)
  with findMatchingNodes_cachesCurrent [OF assms, of p] show ?thesis
    by (cases "findMatchingNodes js m g p") (simp add: runQuery_def)
next
  case (PathQuery p)
  with findMatchingPaths_cachesCurrent [OF assms, of p] show ?thesis
    by (cases "findMatchingPaths js m g p") (simp add: runQuery_def)
next
  case (RelationshipQuery p sid)
  with findMatchingRelationships_cachesCurrent [OF assms, of p sid] show ?thesis
    by (cases "findMatchingRelationships js m g p sid") (simp add: runQuery_def)
qed

section \<open>Lemmas: distinct start nodes\<close>

lemma labelCacheDistinct_new: "labelCacheDistinct (PatternMatcher opts)"
  by (simp add: labelCacheDistinct_def PatternMatcher_def)

lemma labelCacheDistinct_clearCache: "labelCacheDistinct (clearCache m)"
  by (simp add: labelCacheDistinct_def clearCache_def)

lemma map_filter_getNode_ids:
  "map node_id (List.map_filter (getNode g) ids) = filter (\<lambda>i. getNode g i \<noteq> None) ids"
  by (induction ids) (auto split: option.splits dest: getNode_id)

lemma getNodesByLabel_distinct:
  assumes "uniqueNodeIds g" and "labelCacheDistinct m"
  shows "distinct (map node_id (fst (getNodesByLabel js m g l)))"
proof (cases "labelCache m (normalizeLabel js (options m) l)")
  case None
  from assms(1) have "distinct (map node_id (findNodes g (\<lambda>n. labelMatches js (options m) (getNodeLabels n) l)))"
    by (simp add: uniqueNodeIds_def findNodes_def distinct_map_filter)
  with None show ?thesis
    by (simp add: getNodesByLabel_def Let_def map_filter_getNode_ids)
next
  case (Some ids)
  with assms(2) have "distinct ids" by (auto simp: labelCacheDistinct_def)
  with Some show ?thesis
    by (simp add: getNodesByLabel_def Let_def map_filter_getNode_ids)
qed

lemma getNodesByLabel_labelCacheDistinct:
  assumes "uniqueNodeIds g" and "labelCacheDistinct m"
  shows "labelCacheDistinct (snd (getNodesByLabel js m g l))"
proof (cases "labelCache m (normalizeLabel js (options m) l)")
  case None
  from assms(1) have "distinct (map node_id (findNodes g (\<lambda>n. labelMatches js (options m) (getNodeLabels n) l)))"
    by (simp add: uniqueNodeIds_def findNodes_def distinct_map_filter)
  with None assms(2) show ?thesis
    by (auto simp: getNodesByLabel_def Let_def labelCacheDistinct_def)
next
  case (Some ids)
  with assms(2) show ?thesis by (simp add: getNodesByLabel_def Let_def)
qed

lemma findMatchingNodes_distinct:
  assumes "uniqueNodeIds g" and "labelCacheDistinct m"
  shows "distinct (map node_id (fst (findMatchingNodes js m g p)))"
proof (cases "np_labels p")
  case Nil
  with assms(1) show ?thesis
    by (simp add: findMatchingNodes_def findNodes_def uniqueNodeIds_def distinct_map_filter)
next
  case (Cons l ls)
  with getNodesByLabel_distinct [OF assms, of js l] show ?thesis
    by (cases "getNodesByLabel js m g l") (simp add: findMatchingNodes_def distinct_map_filter)
qed

lemma findMatchingNodes_labelCacheDistinct:
  assumes "uniqueNodeIds g" and "labelCacheDistinct m"
  shows "labelCacheDistinct (snd (findMatchingNodes js m g p))"
proof (cases "np_labels p")
  case Nil
  with assms(2) show ?thesis by (simp add: findMatchingNodes_def)
next
  case (Cons l ls)
  with getNodesByLabel_labelCacheDistinct [OF assms, of js l] show ?thesis
    by (cases "getNodesByLabel js m g l") (simp add: findMatchingNodes_def)
qed

lemma initialNodesOf_distinct:
  assumes "uniqueNodeIds g" and "labelCacheDistinct m"
  shows "distinct (map node_id (fst (initialNodesOf js m g p)))"
  using findMatchingNodes_distinct [OF assms, of js p]
  by (cases "findMatchingNodes js m g p")
    (simp add: initialNodesOf_def distinct_map_filter split: option.splits)

lemma findMatchingPaths_labelCacheDistinct:
  assumes "uniqueNodeIds g" and "labelCacheDistinct m"
  shows "labelCacheDistinct (snd (findMatchingPaths js m g pat))"
  using findMatchingNodes_labelCacheDistinct [OF assms, of js "pp_start pat"]
  by (cases "findMatchingNodes js m g (pp_start pat)")
    (simp add: findMatchingPaths_def initialNodesOf_def split: option.splits)

lemma pathToString_single: "pathToString \<lparr>nodes = [n], edges = []\<rparr> = node_id n @ ''|''"
  by (simp add: pathToString_def)

lemma start_only_distinct:
  assumes "distinct (map node_id ns)"
  shows "distinct (map pathToString (map (\<lambda>n. \<lparr>nodes = [n], edges = []\<rparr>) ns))"
proof -
  have eq: "map pathToString (map (\<lambda>n. \<lparr>nodes = [n], edges = []\<rparr>) ns) = map (\<lambda>n. node_id n @ ''|'') ns"
    by (simp add: pathToString_single comp_def)
  from assms have "distinct ns" and "inj_on node_id (set ns)" by (simp_all add: distinct_map)
  then have "distinct (map (\<lambda>n. node_id n @ ''|'') ns)"
    by (auto simp: distinct_map inj_on_def)
  then show ?thesis by (simp only: eq)
qed

section \<open>Lemmas: variable-length segments\<close>

text \<open>
  The test of the code, \<^verbatim>\<open>!(minHops === 1 && maxHopsSpecified === 1)\<close>, against the
  statement of the spec: they differ exactly where \<^verbatim>\<open>maxHops\<close> is not given.
\<close>

lemma isVariable_spec:
  "isVariable rel \<longleftrightarrow> (rp_maxHops rel = None \<or> spec_isVariable rel)"
  by (cases "rp_maxHops rel") (auto simp: isVariable_def spec_isVariable_def minHopsOf_def Let_def)

text \<open>The number of hops a variable segment may take, with the cap written out.\<close>

lemma maxHopsTraversal_cap:
  "maxHopsTraversal opts rel =
     (case rp_maxHops rel of None \<Rightarrow> maxPathDepth opts | Some h \<Rightarrow> min h (maxPathDepth opts))"
  by (simp add: maxHopsTraversal_def split: option.splits)

text \<open>
  What \<^verbatim>\<open>processEdge\<close> appends to the queue for an edge that passes every check and
  leaves room in the results: the state that continues the segment, then the state that
  moves to the next segment.
\<close>

lemma processEdge_pushes:
  assumes nb: "getNeighborNode g (node_id (currentNode st)) e
                 (rp_direction (seg_relationship (segs ! segmentIdx st))) = Some nb"
    and rel: "matchesRelationshipPattern js opts e (seg_relationship (segs ! segmentIdx st))
                 (Some (currentNode st)) (Some nb)"
    and idOk: "\<forall>x. map_of (np_properties (seg_node (segs ! segmentIdx st))) ''id'' = Some x \<longrightarrow>
                 strictEq (JStr (node_id nb)) x"
    and fresh: "node_id nb \<notin> visitedInPath st"
    and room: "length results + 1 < maxPathResults opts"
  shows "fst (snd (processEdge js opts g segs st e queue results)) =
      queue @
      (if isVariable (seg_relationship (segs ! segmentIdx st)) \<and>
          varHopCount st + 1 < maxHopsTraversal opts (seg_relationship (segs ! segmentIdx st))
       then [continueState st nb e] else []) @
      (if minHopsOf (seg_relationship (segs ! segmentIdx st)) \<le> varHopCount st + 1 \<and>
          matchesNodePattern js opts nb (seg_node (segs ! segmentIdx st)) \<and>
          segmentIdx st + 1 < length segs
       then [nextSegmentState st nb e] else [])"
  using assms
  unfolding processEdge_def Let_def
  by (auto split: option.splits)

section \<open>Lemmas: running the loops on the examples\<close>

text \<open>One turn of the while loop, with the number of turns left written as a numeral.\<close>

lemma bfsLoop_numeral:
  "bfsLoop js opts g segs (numeral k) (st # queue) results =
     (if \<not> length results < maxPathResults opts then results
      else if segmentIdx st \<ge> length segs then bfsLoop js opts g segs (pred_numeral k) queue results
      else if length (edges (currentPath st)) \<ge> maxPathDepth opts
      then bfsLoop js opts g segs (pred_numeral k) queue results
      else
        (case edgeLoop js opts g segs st
                (getCandidateEdges g (node_id (currentNode st))
                   (rp_direction (seg_relationship (segs ! segmentIdx st))))
                queue results of
           (queue', results') \<Rightarrow>
             if length results' \<ge> maxPathResults opts then results'
             else bfsLoop js opts g segs (pred_numeral k) queue' results'))"
  by (simp add: numeral_eq_Suc)

lemmas example_defs = exampleBuiltins_def noOptions_def exampleNode_def exampleEdge_def
  chainGraph_def anyNode_def hops_def pathOf_def

lemmas run_defs = findMatchingPaths_def initialNodesOf_def findMatchingNodes_def findNodes_def
  matchesNodePattern_def PatternMatcher_def uniqueResults_def pathToString_def initialState_def
  getCandidateEdges_def processEdge_def getNeighborNode_def getNode_def matchesRelationshipPattern_def
  hasCorrectDirection_def minHopsOf_def isVariable_def maxHopsTraversal_def newPathOf_def
  continueState_def nextSegmentState_def bfsLoop_numeral Let_def

section \<open>The claims\<close>

text \<open>
  C1, as the spec states it, fails: on the cycle a -> b -> a, the pattern of two
  one-hop segments returns the path a, b, a, on which the node a stands twice. The check
  for a cycle guards the two queue pushes only; the hop that completes the pattern is
  not checked.
\<close>

theorem findMatchingPaths_repeats_node:
  "\<lparr>nodes = [exampleNode ''a'' ''Stop'', exampleNode ''b'' ''Stop'', exampleNode ''a'' ''Stop''],
     edges = [exampleEdge ''a'' ''NEXT'' ''b'', exampleEdge ''b'' ''NEXT'' ''a'']\<rparr>
     \<in> set (fst (findMatchingPaths exampleBuiltins (PatternMatcher noOptions) cycleGraph
                 (pathOf anyNode [hops (Some 1) (Some 1), hops (Some 1) (Some 1)]))) \<and>
   \<not> distinct (map node_id
          [exampleNode ''a'' ''Stop'', exampleNode ''b'' ''Stop'', exampleNode ''a'' ''Stop''])"
  by (simp add: cycleGraph_def example_defs run_defs)

text \<open>
  C1, amended: on every path returned by findMatchingPaths the nodes before the last one
  have pairwise distinct ids; only the last node of a path may repeat an earlier one.
\<close>

theorem findMatchingPaths_distinct_before_last:
  assumes "p \<in> set (fst (findMatchingPaths js m g pat))"
  shows "distinct (butlast (map node_id (nodes p)))"
proof (cases "pp_segments pat = []")
  case True
  with assms show ?thesis by (auto simp: findMatchingPaths_start_only)
next
  case False
  with assms have "p \<in> set (bfsResults js m g pat)"
    using uniqueResults_subset by (auto simp: findMatchingPaths_segments)
  moreover have "\<forall>p \<in> set (bfsResults js m g pat). distinct (butlast (map node_id (nodes p)))"
    unfolding bfsResults_def
  proof (rule startLoop_inv [where SI = distinctState])
    show "\<forall>p \<in> set []. distinct (butlast (map node_id (nodes p)))" by simp
    show "\<And>n. distinctState (initialState n)" by (rule distinctState_initial)
  qed (erule (1) distinctState_step, erule (1) distinctState_path)
  ultimately show ?thesis by blast
qed

theorem findMatchingPaths_distinct_before_last_witness:
  "\<lparr>nodes = [exampleNode ''a'' ''Stop'', exampleNode ''b'' ''Stop'', exampleNode ''a'' ''Stop''],
     edges = [exampleEdge ''a'' ''NEXT'' ''b'', exampleEdge ''b'' ''NEXT'' ''a'']\<rparr>
     \<in> set (fst (findMatchingPaths exampleBuiltins (PatternMatcher noOptions) cycleGraph
                 (pathOf anyNode [hops (Some 1) (Some 1), hops (Some 1) (Some 1)]))) \<and>
   distinct (butlast (map node_id
          [exampleNode ''a'' ''Stop'', exampleNode ''b'' ''Stop'', exampleNode ''a'' ''Stop'']))"
  using findMatchingPaths_distinct_before_last
    [of "\<lparr>nodes = [exampleNode ''a'' ''Stop'', exampleNode ''b'' ''Stop'', exampleNode ''a'' ''Stop''],
           edges = [exampleEdge ''a'' ''NEXT'' ''b'', exampleEdge ''b'' ''NEXT'' ''a'']\<rparr>"
        exampleBuiltins "PatternMatcher noOptions" cycleGraph
        "pathOf anyNode [hops (Some 1) (Some 1), hops (Some 1) (Some 1)]"]
  by (simp add: cycleGraph_def example_defs run_defs)

text \<open>
  C2, as the spec states it, fails: a segment with no hop bounds at all is (1, 1) in the
  spec's reading, so fixed, and the code takes it as variable: on the chain
  a -> b -> c the pattern of this one segment returns the two-edge path a, b, c.
\<close>

theorem isVariable_unset_maxHops:
  "isVariable (hops None None) \<and> \<not> spec_isVariable (hops None None) \<and>
   map pathToString
     (fst (findMatchingPaths exampleBuiltins (PatternMatcher noOptions) chainGraph
            (pathOf anyNode [hops None None]))) =
   [''a,b|a-NEXT-b'', ''a,b,c|a-NEXT-b,b-NEXT-c'', ''b,c|b-NEXT-c'']"
  by (simp add: example_defs run_defs spec_isVariable_def)

text \<open>
  C2, amended: in findMatchingPaths a segment is taken as variable-length if and only if
  its maxHops is not given or the pair (minHops ?? 1, maxHops) is not (1, 1), and the hops
  of a variable segment are capped by maxPathDepth: by min maxHops maxPathDepth where
  maxHops is given, by maxPathDepth where it is not. First, in processEdge: for an edge
  that passes every check and leaves room in the results, the state that continues the
  same segment is queued exactly when the segment is variable in this sense and one more
  hop stays below the cap. Second, on the result: every path returned by findMatchingPaths
  splits into one run of edges per segment, every edge of a run matching the relationship
  of its segment and the node at its end matching the node of the segment; the run of a
  segment that is not variable has exactly one edge, the run of a segment whose maxHops
  is given has at most max 1 (min maxHops maxPathDepth) edges (the first hop is always
  taken), and the run of a segment whose maxHops is not given has at most maxPathDepth
  edges, so a segment without maxHops is variable also when minHops is 1 or not given.
\<close>

theorem findMatchingPaths_variable_segments:
  "(getNeighborNode g (node_id (currentNode st)) e
        (rp_direction (seg_relationship (segs ! segmentIdx st))) = Some nb \<and>
    matchesRelationshipPattern js opts e (seg_relationship (segs ! segmentIdx st))
        (Some (currentNode st)) (Some nb) \<and>
    (\<forall>x. map_of (np_properties (seg_node (segs ! segmentIdx st))) ''id'' = Some x \<longrightarrow>
         strictEq (JStr (node_id nb)) x) \<and>
    node_id nb \<notin> visitedInPath st \<and> length results + 1 < maxPathResults opts \<longrightarrow>
    fst (snd (processEdge js opts g segs st e queue results)) =
      queue @
      (if (rp_maxHops (seg_relationship (segs ! segmentIdx st)) = None \<or>
           spec_isVariable (seg_relationship (segs ! segmentIdx st))) \<and>
          varHopCount st + 1 <
            (case rp_maxHops (seg_relationship (segs ! segmentIdx st)) of
               None \<Rightarrow> maxPathDepth opts
             | Some h \<Rightarrow> min h (maxPathDepth opts))
       then [continueState st nb e] else []) @
      (if minHopsOf (seg_relationship (segs ! segmentIdx st)) \<le> varHopCount st + 1 \<and>
          matchesNodePattern js opts nb (seg_node (segs ! segmentIdx st)) \<and>
          segmentIdx st + 1 < length segs
       then [nextSegmentState st nb e] else [])) \<and>
   (p \<in> set (fst (findMatchingPaths js m g pat)) \<longrightarrow>
      (\<exists>ks. length ks = length (pp_segments pat) \<and> sum_list ks = length (edges p) \<and>
         (\<forall>i < length (pp_segments pat).
            1 \<le> ks ! i \<and>
            (\<not> (rp_maxHops (seg_relationship (pp_segments pat ! i)) = None \<or>
                 spec_isVariable (seg_relationship (pp_segments pat ! i))) \<longrightarrow> ks ! i = 1) \<and>
            (rp_maxHops (seg_relationship (pp_segments pat ! i)) = None \<longrightarrow>
               ks ! i \<le> maxPathDepth (options m)) \<and>
            (\<forall>hmax. rp_maxHops (seg_relationship (pp_segments pat ! i)) = Some hmax \<longrightarrow>
               ks ! i \<le> max 1 (min hmax (maxPathDepth (options m)))) \<and>
            (\<forall>j. offsetOf ks i \<le> j \<and> j < offsetOf ks i + ks ! i \<longrightarrow>
               edgeMatches js (options m) g (seg_relationship (pp_segments pat ! i))
                 (nodes p ! j) (edges p ! j) (nodes p ! Suc j)) \<and>
            matchesNodePattern js (options m) (nodes p ! (offsetOf ks i + ks ! i))
              (seg_node (pp_segments pat ! i)))))"
proof (intro conjI impI)
  assume a: "getNeighborNode g (node_id (currentNode st)) e
        (rp_direction (seg_relationship (segs ! segmentIdx st))) = Some nb \<and>
    matchesRelationshipPattern js opts e (seg_relationship (segs ! segmentIdx st))
        (Some (currentNode st)) (Some nb) \<and>
    (\<forall>x. map_of (np_properties (seg_node (segs ! segmentIdx st))) ''id'' = Some x \<longrightarrow>
         strictEq (JStr (node_id nb)) x) \<and>
    node_id nb \<notin> visitedInPath st \<and> length results + 1 < maxPathResults opts"
  note push = processEdge_pushes [OF a [THEN conjunct1] a [THEN conjunct2, THEN conjunct1]
      a [THEN conjunct2, THEN conjunct2, THEN conjunct1]
      a [THEN conjunct2, THEN conjunct2, THEN conjunct2, THEN conjunct1]
      a [THEN conjunct2, THEN conjunct2, THEN conjunct2, THEN conjunct2]]
  show "fst (snd (processEdge js opts g segs st e queue results)) =
      queue @
      (if (rp_maxHops (seg_relationship (segs ! segmentIdx st)) = None \<or>
           spec_isVariable (seg_relationship (segs ! segmentIdx st))) \<and>
          varHopCount st + 1 <
            (case rp_maxHops (seg_relationship (segs ! segmentIdx st)) of
               None \<Rightarrow> maxPathDepth opts
             | Some h \<Rightarrow> min h (maxPathDepth opts))
       then [continueState st nb e] else []) @
      (if minHopsOf (seg_relationship (segs ! segmentIdx st)) \<le> varHopCount st + 1 \<and>
          matchesNodePattern js opts nb (seg_node (segs ! segmentIdx st)) \<and>
          segmentIdx st + 1 < length segs
       then [nextSegmentState st nb e] else [])"
    unfolding push isVariable_spec maxHopsTraversal_cap ..
next
  assume mem: "p \<in> set (fst (findMatchingPaths js m g pat))"
  note hp = findMatchingPaths_hopPath [OF mem, unfolded hopPath_def]
  note depth = hp [THEN conjunct1]
  from hp [THEN conjunct2, THEN conjunct2]
  obtain ks where ks': "length ks = length (pp_segments pat) \<and> sum_list ks = length (edges p) \<and>
      runsMatch js (options m) g (pp_segments pat) p ks" ..
  note ks = ks' [THEN conjunct1] ks' [THEN conjunct2, THEN conjunct1] ks' [THEN conjunct2, THEN conjunct2]
  have "\<forall>i < length (pp_segments pat).
            1 \<le> ks ! i \<and>
            (\<not> (rp_maxHops (seg_relationship (pp_segments pat ! i)) = None \<or>
                 spec_isVariable (seg_relationship (pp_segments pat ! i))) \<longrightarrow> ks ! i = 1) \<and>
            (rp_maxHops (seg_relationship (pp_segments pat ! i)) = None \<longrightarrow>
               ks ! i \<le> maxPathDepth (options m)) \<and>
            (\<forall>hmax. rp_maxHops (seg_relationship (pp_segments pat ! i)) = Some hmax \<longrightarrow>
               ks ! i \<le> max 1 (min hmax (maxPathDepth (options m)))) \<and>
            (\<forall>j. offsetOf ks i \<le> j \<and> j < offsetOf ks i + ks ! i \<longrightarrow>
               edgeMatches js (options m) g (seg_relationship (pp_segments pat ! i))
                 (nodes p ! j) (edges p ! j) (nodes p ! Suc j)) \<and>
            matchesNodePattern js (options m) (nodes p ! (offsetOf ks i + ks ! i))
              (seg_node (pp_segments pat ! i))"
  proof (intro allI impI)
    fix i assume "i < length (pp_segments pat)"
    with ks(1) have i: "i < length ks" by simp
    with ks(3) have ok: "hops_ok (options m) (seg_relationship (pp_segments pat ! i)) (ks ! i)"
      and run: "\<forall>j. offsetOf ks i \<le> j \<and> j < offsetOf ks i + ks ! i \<longrightarrow>
              stepOk js (options m) g (seg_relationship (pp_segments pat ! i)) p j"
      and node: "matchesNodePattern js (options m) (nodes p ! (offsetOf ks i + ks ! i)) (seg_node (pp_segments pat ! i))"
      unfolding runsMatch_def by simp_all
    from ok have one: "1 \<le> ks ! i" by (simp add: hops_ok_def)
    from ok have fixed: "\<not> (rp_maxHops (seg_relationship (pp_segments pat ! i)) = None \<or>
                 spec_isVariable (seg_relationship (pp_segments pat ! i))) \<longrightarrow> ks ! i = 1"
      by (auto simp: hops_ok_def isVariable_spec)
    from ok have capped: "\<forall>hmax. rp_maxHops (seg_relationship (pp_segments pat ! i)) = Some hmax \<longrightarrow>
               ks ! i \<le> max 1 (min hmax (maxPathDepth (options m)))"
      by (auto simp: hops_ok_def maxHopsTraversal_def)
    from offsetOf_le [OF i] ks(2) depth have "ks ! i \<le> maxPathDepth (options m)" by simp
    with one fixed capped run node
    show "1 \<le> ks ! i \<and>
            (\<not> (rp_maxHops (seg_relationship (pp_segments pat ! i)) = None \<or>
                 spec_isVariable (seg_relationship (pp_segments pat ! i))) \<longrightarrow> ks ! i = 1) \<and>
            (rp_maxHops (seg_relationship (pp_segments pat ! i)) = None \<longrightarrow>
               ks ! i \<le> maxPathDepth (options m)) \<and>
            (\<forall>hmax. rp_maxHops (seg_relationship (pp_segments pat ! i)) = Some hmax \<longrightarrow>
               ks ! i \<le> max 1 (min hmax (maxPathDepth (options m)))) \<and>
            (\<forall>j. offsetOf ks i \<le> j \<and> j < offsetOf ks i + ks ! i \<longrightarrow>
               edgeMatches js (options m) g (seg_relationship (pp_segments pat ! i))
                 (nodes p ! j) (edges p ! j) (nodes p ! Suc j)) \<and>
            matchesNodePattern js (options m) (nodes p ! (offsetOf ks i + ks ! i))
              (seg_node (pp_segments pat ! i))"
      by (simp add: stepOk_def)
  qed
  with ks(1,2) show "\<exists>ks. length ks = length (pp_segments pat) \<and> sum_list ks = length (edges p) \<and>
         (\<forall>i < length (pp_segments pat).
            1 \<le> ks ! i \<and>
            (\<not> (rp_maxHops (seg_relationship (pp_segments pat ! i)) = None \<or>
                 spec_isVariable (seg_relationship (pp_segments pat ! i))) \<longrightarrow> ks ! i = 1) \<and>
            (rp_maxHops (seg_relationship (pp_segments pat ! i)) = None \<longrightarrow>
               ks ! i \<le> maxPathDepth (options m)) \<and>
            (\<forall>hmax. rp_maxHops (seg_relationship (pp_segments pat ! i)) = Some hmax \<longrightarrow>
               ks ! i \<le> max 1 (min hmax (maxPathDepth (options m)))) \<and>
            (\<forall>j. offsetOf ks i \<le> j \<and> j < offsetOf ks i + ks ! i \<longrightarrow>
               edgeMatches js (options m) g (seg_relationship (pp_segments pat ! i))
                 (nodes p ! j) (edges p ! j) (nodes p ! Suc j)) \<and>
            matchesNodePattern js (options m) (nodes p ! (offsetOf ks i + ks ! i))
              (seg_node (pp_segments pat ! i)))"
    by (intro exI [of _ ks]) simp
qed

theorem findMatchingPaths_variable_segments_witness:
  "fst (snd (processEdge exampleBuiltins (options (PatternMatcher noOptions)) chainGraph
              (pp_segments (pathOf anyNode [hops None None]))
              (initialState (exampleNode ''a'' ''Stop'')) (exampleEdge ''a'' ''NEXT'' ''b'') [] [])) =
     [continueState (initialState (exampleNode ''a'' ''Stop'')) (exampleNode ''b'' ''Stop'')
        (exampleEdge ''a'' ''NEXT'' ''b'')] \<and>
   \<lparr>nodes = [exampleNode ''a'' ''Stop'', exampleNode ''b'' ''Stop'', exampleNode ''c'' ''Stop''],
     edges = [exampleEdge ''a'' ''NEXT'' ''b'', exampleEdge ''b'' ''NEXT'' ''c'']\<rparr>
     \<in> set (fst (findMatchingPaths exampleBuiltins (PatternMatcher noOptions) chainGraph
                 (pathOf anyNode [hops None None]))) \<and>
   (\<exists>ks :: nat list. length ks = 1 \<and> sum_list ks = 2 \<and> ks ! 0 \<le> 10)"
proof -
  let ?opts = "options (PatternMatcher noOptions)"
  let ?segs = "pp_segments (pathOf anyNode [hops None None])"
  let ?st = "initialState (exampleNode ''a'' ''Stop'')"
  let ?e = "exampleEdge ''a'' ''NEXT'' ''b''"
  let ?nb = "exampleNode ''b'' ''Stop''"
  let ?p = "\<lparr>nodes = [exampleNode ''a'' ''Stop'', exampleNode ''b'' ''Stop'', exampleNode ''c'' ''Stop''],
     edges = [exampleEdge ''a'' ''NEXT'' ''b'', exampleEdge ''b'' ''NEXT'' ''c'']\<rparr>"
  let ?pat = "pathOf anyNode [hops None None]"
  note inst = findMatchingPaths_variable_segments
    [of chainGraph ?st ?e ?segs ?nb exampleBuiltins ?opts "[]" "[]" ?p "PatternMatcher noOptions" ?pat]
  have pre: "getNeighborNode chainGraph (node_id (currentNode ?st)) ?e
        (rp_direction (seg_relationship (?segs ! segmentIdx ?st))) = Some ?nb \<and>
    matchesRelationshipPattern exampleBuiltins ?opts ?e (seg_relationship (?segs ! segmentIdx ?st))
        (Some (currentNode ?st)) (Some ?nb) \<and>
    (\<forall>x. map_of (np_properties (seg_node (?segs ! segmentIdx ?st))) ''id'' = Some x \<longrightarrow>
         strictEq (JStr (node_id ?nb)) x) \<and>
    node_id ?nb \<notin> visitedInPath ?st \<and> length ([] :: path list) + 1 < maxPathResults ?opts"
    by (simp add: example_defs run_defs)
  from inst [THEN conjunct1, THEN mp, OF pre]
  have A: "fst (snd (processEdge exampleBuiltins ?opts chainGraph ?segs ?st ?e [] [])) =
     [continueState ?st ?nb ?e]"
    by (simp add: example_defs PatternMatcher_def initialState_def spec_isVariable_def minHopsOf_def
        matchesNodePattern_def)
  have mem: "?p \<in> set (fst (findMatchingPaths exampleBuiltins (PatternMatcher noOptions) chainGraph ?pat))"
    by (simp add: example_defs run_defs)
  from inst [THEN conjunct2, THEN mp, OF mem]
  obtain ks where ks': "length ks = length (pp_segments ?pat) \<and> sum_list ks = length (edges ?p) \<and>
         (\<forall>i < length (pp_segments ?pat).
            1 \<le> ks ! i \<and>
            (\<not> (rp_maxHops (seg_relationship (pp_segments ?pat ! i)) = None \<or>
                 spec_isVariable (seg_relationship (pp_segments ?pat ! i))) \<longrightarrow> ks ! i = 1) \<and>
            (rp_maxHops (seg_relationship (pp_segments ?pat ! i)) = None \<longrightarrow>
               ks ! i \<le> maxPathDepth (options (PatternMatcher noOptions))) \<and>
            (\<forall>hmax. rp_maxHops (seg_relationship (pp_segments ?pat ! i)) = Some hmax \<longrightarrow>
               ks ! i \<le> max 1 (min hmax (maxPathDepth (options (PatternMatcher noOptions))))) \<and>
            (\<forall>j. offsetOf ks i \<le> j \<and> j < offsetOf ks i + ks ! i \<longrightarrow>
               edgeMatches exampleBuiltins (options (PatternMatcher noOptions)) chainGraph
                 (seg_relationship (pp_segments ?pat ! i))
                 (nodes ?p ! j) (edges ?p ! j) (nodes ?p ! Suc j)) \<and>
            matchesNodePattern exampleBuiltins (options (PatternMatcher noOptions))
              (nodes ?p ! (offsetOf ks i + ks ! i))
              (seg_node (pp_segments ?pat ! i)))" ..
  from ks' [THEN conjunct2, THEN conjunct2, THEN spec, of 0]
  have "ks ! 0 \<le> 10"
    by (simp add: pathOf_def hops_def noOptions_def PatternMatcher_def)
  moreover from ks' have "length ks = 1 \<and> sum_list ks = 2" by (simp add: pathOf_def)
  ultimately have "\<exists>ks :: nat list. length ks = 1 \<and> sum_list ks = 2 \<and> ks ! 0 \<le> 10"
    by (intro exI [of _ ks]) simp
  with A mem show ?thesis by simp
qed

text \<open>
  C3: the code does not do this. A node with the primary label Item and the array
  labels = [Person] in its property bag does not match the pattern label Person:
  getNodeLabels gives the primary label alone, and nothing else of the matcher reads the
  array. The labels of the example are ASCII, where the lowering of the example is the
  one of JavaScript.
\<close>

theorem matchesNodePattern_labels_array:
  "\<not> matchesNodePattern exampleBuiltins (options (PatternMatcher noOptions))
        \<lparr>node_id = ''n1'', node_label = ''Item'',
         node_data = Some [(''labels'', JArr [JStr ''Person''])]\<rparr>
        \<lparr>np_variable = None, np_labels = [''Person''], np_properties = []\<rparr>"
  by (simp add: example_defs PatternMatcher_def matchesNodePattern_def labelMatches_def
      getNodeLabels_def normalizeLabel_def asciiToLowerCase_def isUpper_def)

text \<open>
  C4: every node in the list returned by findMatchingNodes satisfies matchesNodePattern
  for the pattern and is a node of the graph, whatever the label cache holds.
\<close>

theorem findMatchingNodes_sound:
  "n \<in> set (fst (findMatchingNodes js m g p)) \<Longrightarrow>
     matchesNodePattern js (options m) n p \<and> n \<in> set (graph_nodes g)"
proof (cases "np_labels p")
  case Nil
  assume "n \<in> set (fst (findMatchingNodes js m g p))"
  with Nil show ?thesis by (simp add: findMatchingNodes_def findNodes_def)
next
  case (Cons l ls)
  assume "n \<in> set (fst (findMatchingNodes js m g p))"
  with Cons show ?thesis
    using getNodesByLabel_in_graph [of n js m g l]
    by (auto simp: findMatchingNodes_def split: prod.splits)
qed

theorem findMatchingNodes_sound_witness:
  "exampleNode ''b'' ''Stop''
     \<in> set (fst (findMatchingNodes exampleBuiltins (PatternMatcher noOptions) chainGraph
                 \<lparr>np_variable = None, np_labels = [''stop''], np_properties = [(''id'', JStr ''b'')]\<rparr>)) \<and>
   matchesNodePattern exampleBuiltins (options (PatternMatcher noOptions)) (exampleNode ''b'' ''Stop'')
     \<lparr>np_variable = None, np_labels = [''stop''], np_properties = [(''id'', JStr ''b'')]\<rparr> \<and>
   exampleNode ''b'' ''Stop'' \<in> set (graph_nodes chainGraph)"
  using findMatchingNodes_sound
    [of "exampleNode ''b'' ''Stop''" exampleBuiltins "PatternMatcher noOptions" chainGraph
        "\<lparr>np_variable = None, np_labels = [''stop''], np_properties = [(''id'', JStr ''b'')]\<rparr>"]
  by (simp add: example_defs PatternMatcher_def findMatchingNodes_def getNodesByLabel_def
      findNodes_def getNode_def matchesNodePattern_def nodePropertiesMatch_def labelMatches_def
      getNodeLabels_def normalizeLabel_def asciiToLowerCase_def isUpper_def Let_def)

text \<open>
  C5, as the spec states it, fails: a segment with maxHops = 0 still takes one edge. On
  the chain a -> b -> c the pattern of one segment with minHops = maxHops = 0 returns the
  one-edge path a, b.
\<close>

theorem findMatchingPaths_maxHops_zero:
  "rp_maxHops (hops (Some 0) (Some 0)) = Some 0 \<and>
   \<lparr>nodes = [exampleNode ''a'' ''Stop'', exampleNode ''b'' ''Stop''],
     edges = [exampleEdge ''a'' ''NEXT'' ''b'']\<rparr>
     \<in> set (fst (findMatchingPaths exampleBuiltins (PatternMatcher noOptions) chainGraph
                 (pathOf anyNode [hops (Some 0) (Some 0)]))) \<and>
   length [exampleEdge ''a'' ''NEXT'' ''b''] = 1"
  by (simp add: example_defs run_defs)

text \<open>
  C5, amended: every path returned by findMatchingPaths has at most maxPathDepth edges,
  and its edges split into one run per segment of the pattern, in order, such that every
  edge of a run matches the relationship pattern of its segment, the node ending the
  run matches the node pattern of the segment, and the run has at least one edge and,
  when the segment carries maxHops = h, at most max 1 h edges (at most h for h of one or
  more; one edge for h = 0).
\<close>

theorem findMatchingPaths_hops:
  assumes "p \<in> set (fst (findMatchingPaths js m g pat))"
  shows "length (edges p) \<le> maxPathDepth (options m) \<and>
         (\<exists>ks. length ks = length (pp_segments pat) \<and> sum_list ks = length (edges p) \<and>
            (\<forall>i < length (pp_segments pat).
               1 \<le> ks ! i \<and>
               (\<forall>h. rp_maxHops (seg_relationship (pp_segments pat ! i)) = Some h \<longrightarrow> ks ! i \<le> max 1 h) \<and>
               (\<forall>j. offsetOf ks i \<le> j \<and> j < offsetOf ks i + ks ! i \<longrightarrow>
                  edgeMatches js (options m) g (seg_relationship (pp_segments pat ! i))
                    (nodes p ! j) (edges p ! j) (nodes p ! Suc j)) \<and>
               matchesNodePattern js (options m) (nodes p ! (offsetOf ks i + ks ! i))
                 (seg_node (pp_segments pat ! i))))"
proof -
  note hp = findMatchingPaths_hopPath [OF assms, unfolded hopPath_def]
  note depth = hp [THEN conjunct1]
  from hp [THEN conjunct2, THEN conjunct2]
  obtain ks where ks': "length ks = length (pp_segments pat) \<and> sum_list ks = length (edges p) \<and>
      runsMatch js (options m) g (pp_segments pat) p ks" ..
  note ks = ks' [THEN conjunct1] ks' [THEN conjunct2, THEN conjunct1] ks' [THEN conjunct2, THEN conjunct2]
  have "\<forall>i < length (pp_segments pat).
               1 \<le> ks ! i \<and>
               (\<forall>h. rp_maxHops (seg_relationship (pp_segments pat ! i)) = Some h \<longrightarrow> ks ! i \<le> max 1 h) \<and>
               (\<forall>j. offsetOf ks i \<le> j \<and> j < offsetOf ks i + ks ! i \<longrightarrow>
                  edgeMatches js (options m) g (seg_relationship (pp_segments pat ! i))
                    (nodes p ! j) (edges p ! j) (nodes p ! Suc j)) \<and>
               matchesNodePattern js (options m) (nodes p ! (offsetOf ks i + ks ! i))
                 (seg_node (pp_segments pat ! i))"
  proof (intro allI impI)
    fix i assume "i < length (pp_segments pat)"
    with ks(1) have i: "i < length ks" by simp
    with ks(3) have ok: "hops_ok (options m) (seg_relationship (pp_segments pat ! i)) (ks ! i)"
      and run: "\<forall>j. offsetOf ks i \<le> j \<and> j < offsetOf ks i + ks ! i \<longrightarrow>
              stepOk js (options m) g (seg_relationship (pp_segments pat ! i)) p j"
      and node: "matchesNodePattern js (options m) (nodes p ! (offsetOf ks i + ks ! i)) (seg_node (pp_segments pat ! i))"
      unfolding runsMatch_def by simp_all
    from ok have one: "1 \<le> ks ! i" by (simp add: hops_ok_def)
    from ok have mx: "\<forall>h. rp_maxHops (seg_relationship (pp_segments pat ! i)) = Some h \<longrightarrow> ks ! i \<le> max 1 h"
      using hops_ok_max by blast
    from one mx run node
    show "1 \<le> ks ! i \<and>
               (\<forall>h. rp_maxHops (seg_relationship (pp_segments pat ! i)) = Some h \<longrightarrow> ks ! i \<le> max 1 h) \<and>
               (\<forall>j. offsetOf ks i \<le> j \<and> j < offsetOf ks i + ks ! i \<longrightarrow>
                  edgeMatches js (options m) g (seg_relationship (pp_segments pat ! i))
                    (nodes p ! j) (edges p ! j) (nodes p ! Suc j)) \<and>
               matchesNodePattern js (options m) (nodes p ! (offsetOf ks i + ks ! i))
                 (seg_node (pp_segments pat ! i))"
      by (simp add: stepOk_def)
  qed
  with depth ks(1,2) show ?thesis by (intro conjI exI [of _ ks]) simp_all
qed

theorem findMatchingPaths_hops_witness:
  "\<lparr>nodes = [exampleNode ''a'' ''Stop'', exampleNode ''b'' ''Stop'', exampleNode ''c'' ''Stop''],
     edges = [exampleEdge ''a'' ''NEXT'' ''b'', exampleEdge ''b'' ''NEXT'' ''c'']\<rparr>
     \<in> set (fst (findMatchingPaths exampleBuiltins (PatternMatcher noOptions) chainGraph
                 (pathOf anyNode [hops (Some 1) (Some 2)]))) \<and>
   (\<exists>ks :: nat list. length ks = 1 \<and> sum_list ks = 2 \<and> 1 \<le> ks ! 0 \<and> ks ! 0 \<le> max 1 2)"
proof -
  let ?p = "\<lparr>nodes = [exampleNode ''a'' ''Stop'', exampleNode ''b'' ''Stop'', exampleNode ''c'' ''Stop''],
     edges = [exampleEdge ''a'' ''NEXT'' ''b'', exampleEdge ''b'' ''NEXT'' ''c'']\<rparr>"
  let ?pat = "pathOf anyNode [hops (Some 1) (Some 2)]"
  have mem: "?p \<in> set (fst (findMatchingPaths exampleBuiltins (PatternMatcher noOptions) chainGraph ?pat))"
    by (simp add: example_defs run_defs)
  from findMatchingPaths_hops [OF mem, THEN conjunct2]
  obtain ks where ks': "length ks = length (pp_segments ?pat) \<and> sum_list ks = length (edges ?p) \<and>
    (\<forall>i < length (pp_segments ?pat).
       1 \<le> ks ! i \<and>
       (\<forall>h. rp_maxHops (seg_relationship (pp_segments ?pat ! i)) = Some h \<longrightarrow> ks ! i \<le> max 1 h) \<and>
       (\<forall>j. offsetOf ks i \<le> j \<and> j < offsetOf ks i + ks ! i \<longrightarrow>
          edgeMatches exampleBuiltins (options (PatternMatcher noOptions)) chainGraph
            (seg_relationship (pp_segments ?pat ! i)) (nodes ?p ! j) (edges ?p ! j) (nodes ?p ! Suc j)) \<and>
       matchesNodePattern exampleBuiltins (options (PatternMatcher noOptions))
         (nodes ?p ! (offsetOf ks i + ks ! i)) (seg_node (pp_segments ?pat ! i)))" ..
  from ks' [THEN conjunct2, THEN conjunct2, THEN spec, of 0]
  have "1 \<le> ks ! 0 \<and> ks ! 0 \<le> max 1 2"
    by (simp add: pathOf_def hops_def)
  moreover from ks' have "length ks = 1 \<and> sum_list ks = 2" by (simp add: pathOf_def)
  ultimately have "\<exists>ks :: nat list. length ks = 1 \<and> sum_list ks = 2 \<and> 1 \<le> ks ! 0 \<and> ks ! 0 \<le> max 1 2"
    by (intro exI [of _ ks]) simp
  with mem show ?thesis by simp
qed

text \<open>
  C6, as the spec states it, fails: a pattern with a start node and no segment returns
  every matching start node, whatever maxPathResults is. With maxPathResults = 1 the
  start-only pattern returns three paths on a graph of three nodes.
\<close>

theorem findMatchingPaths_start_only_unlimited:
  "maxPathResults (options (PatternMatcher (noOptions\<lparr>in_maxPathResults := Some 1\<rparr>))) = 1 \<and>
   length (fst (findMatchingPaths exampleBuiltins
                  (PatternMatcher (noOptions\<lparr>in_maxPathResults := Some 1\<rparr>)) chainGraph
                  (pathOf anyNode []))) = 3"
  by (simp add: example_defs run_defs)

text \<open>
  C6, amended: for every graph and every path pattern with at least one segment,
  findMatchingPaths returns at most maxPathResults paths; for a pattern with no segment
  it returns one path for every start node found; when the option is not supplied,
  maxPathResults is 1000.
\<close>

theorem findMatchingPaths_limit:
  "(pp_segments pat \<noteq> [] \<longrightarrow>
      length (fst (findMatchingPaths js m g pat)) \<le> maxPathResults (options m)) \<and>
   (pp_segments pat = [] \<longrightarrow>
      length (fst (findMatchingPaths js m g pat)) =
      length (fst (initialNodesOf js m g (pp_start pat)))) \<and>
   (in_maxPathResults opts = None \<longrightarrow> maxPathResults (options (PatternMatcher opts)) = 1000)"
proof (intro conjI impI)
  assume segs: "pp_segments pat \<noteq> []"
  have "length (uniqueResults (bfsResults js m g pat)) \<le> length (bfsResults js m g pat)"
    by (rule uniqueResults_length)
  also have "\<dots> \<le> max (length ([] :: path list)) (maxPathResults (options m))"
    unfolding bfsResults_def by (rule startLoop_length)
  finally show "length (fst (findMatchingPaths js m g pat)) \<le> maxPathResults (options m)"
    using segs by (simp add: findMatchingPaths_segments)
next
  assume "pp_segments pat = []"
  then show "length (fst (findMatchingPaths js m g pat)) =
      length (fst (initialNodesOf js m g (pp_start pat)))"
    by (simp add: findMatchingPaths_start_only)
next
  assume "in_maxPathResults opts = None"
  then show "maxPathResults (options (PatternMatcher opts)) = 1000"
    by (simp add: PatternMatcher_def)
qed

theorem findMatchingPaths_limit_witness:
  "pp_segments (pathOf anyNode [hops (Some 1) (Some 2)]) \<noteq> [] \<and>
   length (fst (findMatchingPaths exampleBuiltins
                  (PatternMatcher (noOptions\<lparr>in_maxPathResults := Some 1\<rparr>)) chainGraph
                  (pathOf anyNode [hops (Some 1) (Some 2)]))) \<le> 1 \<and>
   in_maxPathResults noOptions = None \<and>
   maxPathResults (options (PatternMatcher noOptions)) = 1000"
  using findMatchingPaths_limit
    [of "pathOf anyNode [hops (Some 1) (Some 2)]" exampleBuiltins
        "PatternMatcher (noOptions\<lparr>in_maxPathResults := Some 1\<rparr>)" chainGraph noOptions]
  by (simp add: example_defs PatternMatcher_def)

text \<open>
  C7: on a graph whose node ids are unique, for a matcher whose label cache holds lists
  of distinct ids (a new matcher, and every matcher that has only run queries on such
  graphs), no two paths returned by findMatchingPaths have the same canonical string;
  and for a pattern with segments the returned list is the list of results of the
  search with every path dropped whose canonical string an earlier path has: it is a
  subsequence of it, it has the same canonical strings, and each of its paths is the
  first of the search results with its canonical string.
\<close>

theorem findMatchingPaths_deduplicated:
  assumes "uniqueNodeIds g" and "labelCacheDistinct m"
  shows "distinct (map pathToString (fst (findMatchingPaths js m g pat))) \<and>
         (pp_segments pat \<noteq> [] \<longrightarrow>
            subseq (fst (findMatchingPaths js m g pat)) (bfsResults js m g pat) \<and>
            pathToString ` set (fst (findMatchingPaths js m g pat)) = pathToString ` set (bfsResults js m g pat) \<and>
            (\<forall>p \<in> set (fst (findMatchingPaths js m g pat)).
               find (\<lambda>q. pathToString q = pathToString p) (bfsResults js m g pat) = Some p))"
proof (cases "pp_segments pat = []")
  case True
  with initialNodesOf_distinct [OF assms, of js "pp_start pat"] show ?thesis
    by (simp add: findMatchingPaths_start_only start_only_distinct del: map_map)
next
  case False
  then show ?thesis
    by (simp add: findMatchingPaths_segments uniqueResults_distinct uniqueResults_subseq
        uniqueResults_keys uniqueResults_first)
qed

theorem findMatchingPaths_deduplicated_witness:
  "uniqueNodeIds lineGraph \<and> labelCacheDistinct (PatternMatcher noOptions) \<and>
   map pathToString
     (bfsResults exampleBuiltins (PatternMatcher noOptions) lineGraph
        (pathOf (anyNode\<lparr>np_properties := [(''id'', JStr ''a'')]\<rparr>)
           [hops (Some 1) (Some 2), hops (Some 1) (Some 2)])) =
     [''a,b,c|a-NEXT-b,b-NEXT-c'', ''a,b,c,d|a-NEXT-b,b-NEXT-c,c-NEXT-d'',
      ''a,b,c,d|a-NEXT-b,b-NEXT-c,c-NEXT-d''] \<and>
   distinct (map pathToString
     (fst (findMatchingPaths exampleBuiltins (PatternMatcher noOptions) lineGraph
        (pathOf (anyNode\<lparr>np_properties := [(''id'', JStr ''a'')]\<rparr>)
           [hops (Some 1) (Some 2), hops (Some 1) (Some 2)]))))"
proof -
  have g: "uniqueNodeIds lineGraph" by (simp add: uniqueNodeIds_def lineGraph_def example_defs)
  have m: "labelCacheDistinct (PatternMatcher noOptions)" by (rule labelCacheDistinct_new)
  have raw: "map pathToString
     (bfsResults exampleBuiltins (PatternMatcher noOptions) lineGraph
        (pathOf (anyNode\<lparr>np_properties := [(''id'', JStr ''a'')]\<rparr>)
           [hops (Some 1) (Some 2), hops (Some 1) (Some 2)])) =
     [''a,b,c|a-NEXT-b,b-NEXT-c'', ''a,b,c,d|a-NEXT-b,b-NEXT-c,c-NEXT-d'',
      ''a,b,c,d|a-NEXT-b,b-NEXT-c,c-NEXT-d'']"
    by (simp add: bfsResults_def nodePropertiesMatch_def lineGraph_def example_defs run_defs)
  from findMatchingPaths_deduplicated [OF g m] g m raw show ?thesis by blast
qed

text \<open>
  C8, as the spec states it, fails: the caches are not tied to the graph. A matcher that
  has looked up the label Person on the empty graph holds an empty entry for it; on a
  graph with one Person node the query returns no node, and the same query after
  clearCache, on the same graph, returns the node.
\<close>

theorem clearCache_stale:
  "fst (runQuery exampleBuiltins
          (snd (findMatchingNodes exampleBuiltins (PatternMatcher noOptions)
                  \<lparr>graph_nodes = [], graph_edges = []\<rparr>
                  \<lparr>np_variable = None, np_labels = [''Person''], np_properties = []\<rparr>))
          \<lparr>graph_nodes = [exampleNode ''p1'' ''Person''], graph_edges = []\<rparr>
          (NodeQuery \<lparr>np_variable = None, np_labels = [''Person''], np_properties = []\<rparr>)) =
     NodeResult [] \<and>
   fst (runQuery exampleBuiltins
          (clearCache (snd (runQuery exampleBuiltins
             (snd (findMatchingNodes exampleBuiltins (PatternMatcher noOptions)
                     \<lparr>graph_nodes = [], graph_edges = []\<rparr>
                     \<lparr>np_variable = None, np_labels = [''Person''], np_properties = []\<rparr>))
             \<lparr>graph_nodes = [exampleNode ''p1'' ''Person''], graph_edges = []\<rparr>
             (NodeQuery \<lparr>np_variable = None, np_labels = [''Person''], np_properties = []\<rparr>))))
          \<lparr>graph_nodes = [exampleNode ''p1'' ''Person''], graph_edges = []\<rparr>
          (NodeQuery \<lparr>np_variable = None, np_labels = [''Person''], np_properties = []\<rparr>)) =
     NodeResult [exampleNode ''p1'' ''Person'']"
  by (simp add: runQuery_def clearCache_def example_defs PatternMatcher_def findMatchingNodes_def
      getNodesByLabel_def findNodes_def getNode_def matchesNodePattern_def labelMatches_def
      getNodeLabels_def normalizeLabel_def asciiToLowerCase_def isUpper_def Let_def)

text \<open>
  C8, amended: for a matcher whose caches are current for the graph (every entry is what
  a scan of this graph would store: so for a new matcher, a matcher after clearCache, and
  a matcher that has run queries on this state of the graph only), calling clearCache
  and repeating a query on a node, path or relationship pattern on the same graph yields
  the result of the first run.
\<close>

theorem clearCache_repeat:
  assumes "cachesCurrent js m g"
  shows "fst (runQuery js (clearCache (snd (runQuery js m g q))) g q) = fst (runQuery js m g q)"
proof (rule runQuery_current [OF assms])
  show "cachesCurrent js (clearCache (snd (runQuery js m g q))) g" by (rule cachesCurrent_clearCache)
  show "options (clearCache (snd (runQuery js m g q))) = options m"
    by (simp add: clearCache_options runQuery_options)
qed

theorem clearCache_repeat_witness:
  "cachesCurrent exampleBuiltins
     (snd (runQuery exampleBuiltins (PatternMatcher noOptions) chainGraph
        (NodeQuery \<lparr>np_variable = None, np_labels = [''Stop''], np_properties = []\<rparr>))) chainGraph \<and>
   fst (runQuery exampleBuiltins
          (clearCache (snd (runQuery exampleBuiltins
             (snd (runQuery exampleBuiltins (PatternMatcher noOptions) chainGraph
                (NodeQuery \<lparr>np_variable = None, np_labels = [''Stop''], np_properties = []\<rparr>)))
             chainGraph
             (PathQuery (pathOf \<lparr>np_variable = None, np_labels = [''Stop''], np_properties = []\<rparr>
                          [hops (Some 1) (Some 1)])))))
          chainGraph
          (PathQuery (pathOf \<lparr>np_variable = None, np_labels = [''Stop''], np_properties = []\<rparr>
                       [hops (Some 1) (Some 1)]))) =
   fst (runQuery exampleBuiltins
          (snd (runQuery exampleBuiltins (PatternMatcher noOptions) chainGraph
             (NodeQuery \<lparr>np_variable = None, np_labels = [''Stop''], np_properties = []\<rparr>)))
          chainGraph
          (PathQuery (pathOf \<lparr>np_variable = None, np_labels = [''Stop''], np_properties = []\<rparr>
                       [hops (Some 1) (Some 1)])))"
proof -
  have c: "cachesCurrent exampleBuiltins
     (snd (runQuery exampleBuiltins (PatternMatcher noOptions) chainGraph
        (NodeQuery \<lparr>np_variable = None, np_labels = [''Stop''], np_properties = []\<rparr>))) chainGraph"
    by (rule runQuery_cachesCurrent) (rule cachesCurrent_new)
  from clearCache_repeat [OF c] c show ?thesis by blast
qed

text \<open>
  C9, as the spec states it, fails: a pattern whose variable is bound to a node with the
  empty string as its id gains no constraint (the test \<^verbatim>\<open>boundNode && boundNode.id\<close>
  takes the empty id as false); the clone reads as the input.
\<close>

theorem enrichPatternWithBindings_empty_id:
  "[''n'' \<mapsto> BoundNode (exampleNode [] ''Person'')] ''n'' = Some (BoundNode (exampleNode [] ''Person'')) \<and>
   readPathPattern startOnlyHeap 0 =
     pathOf \<lparr>np_variable = Some ''n'', np_labels = [], np_properties = []\<rparr> [] \<and>
   readPathPattern
     (snd (enrichPatternWithBindings 0 [''n'' \<mapsto> BoundNode (exampleNode [] ''Person'')] startOnlyHeap))
     (fst (enrichPatternWithBindings 0 [''n'' \<mapsto> BoundNode (exampleNode [] ''Person'')] startOnlyHeap)) =
     pathOf \<lparr>np_variable = Some ''n'', np_labels = [], np_properties = []\<rparr> []"
  by (simp add: enrichPatternWithBindings_def cloneNodePattern_def newProperties_def newNodePattern_def
      newSegmentArray_def newPathPattern_def readPathPattern_def readNodePattern_def boundIdOf_def
      startOnlyHeap_def example_defs Let_def)

text \<open>
  C9, amended: for a path pattern of the heap, enrichPatternWithBindings writes to no
  object that was in the heap before the call (every store of the heap after the call
  begins with the store before it), so the input pattern reads after the call as before
  it; it returns a new object, which reads as the input pattern with every node pattern
  (the start and the node of every segment) whose variable is a non-empty name bound to
  a node with a non-empty id given the constraint id = that node's id (replacing an id
  constraint it has), and everything else as in the input.
\<close>

theorem enrichPatternWithBindings_frame:
  assumes wf: "wfPathPattern h pattern"
  shows "heapExtends h (snd (enrichPatternWithBindings pattern b h)) \<and>
         readPathPattern (snd (enrichPatternWithBindings pattern b h)) pattern = readPathPattern h pattern \<and>
         fst (enrichPatternWithBindings pattern b h) = length (pathPatterns h) \<and>
         readPathPattern (snd (enrichPatternWithBindings pattern b h))
             (fst (enrichPatternWithBindings pattern b h)) =
           \<lparr>pp_start = enrichNode b (pp_start (readPathPattern h pattern)),
            pp_segments = map (enrichSegment b) (pp_segments (readPathPattern h pattern))\<rparr>"
proof -
  let ?p = "pathPatterns h ! pattern"
  let ?as = "segmentArrays h ! ppo_segments ?p"
  let ?N = "length (nodePatterns h)"
  let ?E = "length (pathPatterns h)"
  let ?A = "length (segmentArrays h)"
  let ?nps = "readNodePattern h (ppo_start ?p) # map (\<lambda>a. seg_node (readSegment h a)) ?as"
  from wf have pat: "pattern < ?E"
    and wstart: "wfNodePattern h (ppo_start ?p)"
    and sa: "ppo_segments ?p < ?A"
    and wsegs: "list_all (wfSegment h) ?as"
    by (simp_all add: wfPathPattern_def)
  obtain start h1 where c1: "cloneNodePattern (ppo_start ?p) h = (start, h1)"
    by (cases "cloneNodePattern (ppo_start ?p) h")
  note N = cloneNodePattern_spec [OF wstart c1]
  obtain cs h2 where c2: "cloneSegments ?as h1 = (cs, h2)" by (cases "cloneSegments ?as h1")
  note wsegs1 = heapExtends_segments [OF N(1) wsegs]
  note C = cloneSegments_spec [OF wsegs1(1) c2]
  note e12 = C [THEN conjunct1]
  note len = C [THEN conjunct2, THEN conjunct1]
  note nlen = C [THEN conjunct2, THEN conjunct2, THEN conjunct1]
  note sarr = C [THEN conjunct2, THEN conjunct2, THEN conjunct2, THEN conjunct1]
  note pats = C [THEN conjunct2, THEN conjunct2, THEN conjunct2, THEN conjunct2, THEN conjunct1]
  note each = C [THEN conjunct2, THEN conjunct2, THEN conjunct2, THEN conjunct2, THEN conjunct2]
  define hc where "hc = h2\<lparr>segmentArrays := segmentArrays h2 @ [cs],
                           pathPatterns := pathPatterns h2 @ [\<lparr>ppo_start = start, ppo_segments = ?A\<rparr>]\<rparr>"
  define h5 where "h5 = (case boundIdOf b (npo_variable (nodePatterns hc ! ppo_start (pathPatterns hc ! pattern))) of
                  Some i \<Rightarrow> setIdConstraint (ppo_start (pathPatterns hc ! ?E)) i hc
                | None \<Rightarrow> hc)"
  define h6 where "h6 = fold (enrichSegmentAt b pattern ?E)
            [0 ..< length (segmentArrays h5 ! ppo_segments (pathPatterns h5 ! pattern))] h5"
  have a3: "newSegmentArray cs h2 = (?A, h2\<lparr>segmentArrays := segmentArrays h2 @ [cs]\<rparr>)"
    by (simp add: newSegmentArray_def sarr N(8))
  have a4: "newPathPattern \<lparr>ppo_start = start, ppo_segments = ?A\<rparr>
              (h2\<lparr>segmentArrays := segmentArrays h2 @ [cs]\<rparr>) = (?E, hc)"
    by (simp add: newPathPattern_def pats N(9) hc_def)
  have a2: "cloneSegments (segmentArrays h1 ! ppo_segments (pathPatterns h1 ! pattern)) h1 = (cs, h2)"
    by (simp add: N(8) N(9) c2)
  have run: "enrichPatternWithBindings pattern b h = (?E, h6)"
    unfolding enrichPatternWithBindings_def c1 Let_def prod.case a2 a3 a4 h6_def h5_def ..
  have e2c: "heapExtends h2 hc" by (simp add: hc_def heapExtends_def)
  note e0c = heapExtends_trans [OF heapExtends_trans [OF N(1) e12] e2c]
  note P = heapExtends_pathPattern [OF e0c wf]
  have hcE: "pathPatterns hc ! ?E = \<lparr>ppo_start = start, ppo_segments = ?A\<rparr>"
    by (simp add: hc_def pats N(9))
  have hcA: "segmentArrays hc ! ?A = cs" by (simp add: hc_def sarr N(8))
  have hcNode: "\<And>a. readNodePattern hc a = readNodePattern h2 a"
      "\<And>a. wfNodePattern hc a = wfNodePattern h2 a"
    by (simp_all add: hc_def readNodePattern_def wfNodePattern_def)
  have hcRel: "\<And>a. readRelationshipPattern hc a = readRelationshipPattern h2 a"
      "\<And>a. wfRelationshipPattern hc a = wfRelationshipPattern h2 a"
      "segmentObjects hc = segmentObjects h2"
    by (simp_all add: hc_def readRelationshipPattern_def wfRelationshipPattern_def)
  have segk: "wfSegment h2 (cs ! k)" "readSegment h2 (cs ! k) = readSegment h (?as ! k)"
      "sgo_node (segmentObjects h2 ! (cs ! k)) = ?N + Suc k" if k: "k < length ?as" for k
  proof -
    from wsegs k have "wfSegment h (?as ! k)" by (simp add: list_all_length)
    then have r: "readSegment h1 (?as ! k) = readSegment h (?as ! k)"
      by (rule heapExtends_segment(2) [OF N(1)])
    note e = each [THEN spec, of k, THEN mp, OF k]
    show "wfSegment h2 (cs ! k)" by (rule e [THEN conjunct1])
    show "readSegment h2 (cs ! k) = readSegment h (?as ! k)"
      using e [THEN conjunct2, THEN conjunct1] r by simp
    show "sgo_node (segmentObjects h2 ! (cs ! k)) = ?N + Suc k"
      using e [THEN conjunct2, THEN conjunct2] by (simp add: N(3))
  qed
  have inv0: "enrichedUpTo b h hc ?nps 0 hc"
  proof -
    have "\<forall>j < length ?nps. wfNodePattern hc (?N + j) \<and> readNodePattern hc (?N + j) = ?nps ! j"
    proof (intro allI impI)
      fix j assume j: "j < length ?nps"
      show "wfNodePattern hc (?N + j) \<and> readNodePattern hc (?N + j) = ?nps ! j"
      proof (cases j)
        case 0
        from heapExtends_node(1,2) [OF e12 N(4)] N(2) N(5)
        show ?thesis by (simp add: 0 hcNode)
      next
        case (Suc k)
        with j have k: "k < length ?as" by simp
        note s = segk [OF k]
        from s(1) have "wfNodePattern h2 (sgo_node (segmentObjects h2 ! (cs ! k)))"
          by (simp add: wfSegment_def)
        then have w: "wfNodePattern h2 (?N + Suc k)" unfolding s(3) .
        have "seg_node (readSegment h2 (cs ! k)) = seg_node (readSegment h (?as ! k))"
          by (simp add: s(2))
        then have "readNodePattern h2 (sgo_node (segmentObjects h2 ! (cs ! k))) =
                   seg_node (readSegment h (?as ! k))"
          by (simp add: readSegment_def [of h2])
        then have r: "readNodePattern h2 (?N + Suc k) = seg_node (readSegment h (?as ! k))"
          unfolding s(3) .
        from w r k show ?thesis by (simp add: Suc hcNode)
      qed
    qed
    moreover from e0c have "prefix (nodePatterns h) (nodePatterns hc)" by (simp add: heapExtends_def)
    ultimately show ?thesis by (simp add: enrichedUpTo_def)
  qed
  have var0: "npo_variable (nodePatterns hc ! ppo_start (pathPatterns hc ! pattern)) = np_variable (?nps ! 0)"
    by (simp add: P(3) heapExtends_node(3) [OF e0c wstart] readNodePattern_def)
  have "h5 = (case boundIdOf b (np_variable (?nps ! 0)) of
                Some i \<Rightarrow> setIdConstraint (?N + 0) i hc
              | None \<Rightarrow> hc)"
    unfolding h5_def var0 hcE by (simp add: N(2) cong: option.case_cong)
  with enrichedUpTo_step [OF inv0]
  have inv1: "enrichedUpTo b h hc ?nps (Suc 0) h5" by simp
  note I1 = inv1 [unfolded enrichedUpTo_def]
  have n5: "segmentArrays h5 ! ppo_segments (pathPatterns h5 ! pattern) = ?as"
    using I1 by (simp add: P(3) P(4))
  have inv6: "enrichedUpTo b h hc ?nps (Suc (length ?as)) h6"
    unfolding h6_def n5
  proof (rule fold_upt_invariant [where I = "\<lambda>k s. enrichedUpTo b h hc ?nps (Suc k) s"])
    show "enrichedUpTo b h hc ?nps (Suc 0) h5" by (rule inv1)
  next
    fix k s
    assume k: "k < length ?as" and inv: "enrichedUpTo b h hc ?nps (Suc k) s"
    note I = inv [unfolded enrichedUpTo_def]
    from wsegs k have wk: "wfSegment h (?as ! k)" by (simp add: list_all_length)
    then have wn: "wfNodePattern h (sgo_node (segmentObjects h ! (?as ! k)))"
      by (simp add: wfSegment_def)
    then have lt: "sgo_node (segmentObjects h ! (?as ! k)) < ?N" by (simp add: wfNodePattern_def)
    from I have pre: "prefix (nodePatterns h) (nodePatterns s)" by simp
    have seg: "segmentObjects s ! (segmentArrays s ! ppo_segments (pathPatterns s ! pattern) ! k) =
               segmentObjects h ! (?as ! k)"
      using I by (simp add: P(3) P(4) heapExtends_segment(3) [OF e0c wk])
    have var: "npo_variable (nodePatterns s ! sgo_node (segmentObjects h ! (?as ! k))) =
               np_variable (?nps ! Suc k)"
      using k by (simp add: prefix_nth [OF pre lt] readSegment_def readNodePattern_def)
    have tgt: "sgo_node (segmentObjects s ! (segmentArrays s ! ppo_segments (pathPatterns s ! ?E) ! k)) =
               ?N + Suc k"
      using I by (simp add: hcE hcA hcRel(3) segk(3) [OF k])
    from k have k': "Suc k < length ?nps" by simp
    have "enrichSegmentAt b pattern ?E k s =
            (case boundIdOf b (np_variable (?nps ! Suc k)) of
               Some i \<Rightarrow> setIdConstraint (?N + Suc k) i s
             | None \<Rightarrow> s)"
      unfolding enrichSegmentAt_def Let_def seg var tgt ..
    with enrichedUpTo_step [OF inv k']
    show "enrichedUpTo b h hc ?nps (Suc (Suc k)) (enrichSegmentAt b pattern ?E k s)" by simp
  qed
  note I6 = inv6 [unfolded enrichedUpTo_def]
  note nodes6 = I6 [THEN conjunct2, THEN conjunct2, THEN conjunct2, THEN conjunct2, THEN conjunct2,
      THEN conjunct2, THEN conjunct2]
  from I6 have props6: "prefix (propertyObjects hc) (propertyObjects h6)" by simp
  have frame: "heapExtends h h6"
    using e0c I6 unfolding heapExtends_def by (auto intro: prefix_order.trans)
  have start6: "readNodePattern h6 ?N = enrichNode b (readNodePattern h (ppo_start ?p))"
    using nodes6 [THEN spec, of 0] by simp
  have seg6: "\<And>k. k < length ?as \<Longrightarrow> readSegment h6 (cs ! k) = enrichSegment b (readSegment h (?as ! k))"
  proof -
    fix k assume k: "k < length ?as"
    note s = segk [OF k]
    from s(1) have wr: "wfRelationshipPattern hc (sgo_relationship (segmentObjects h2 ! (cs ! k)))"
      by (simp add: wfSegment_def hcRel)
    then have lt: "rpo_properties (relationshipPatterns hc ! sgo_relationship (segmentObjects h2 ! (cs ! k)))
                    < length (propertyObjects hc)"
      by (simp add: wfRelationshipPattern_def)
    have "readRelationshipPattern h6 (sgo_relationship (segmentObjects h2 ! (cs ! k))) =
          readRelationshipPattern hc (sgo_relationship (segmentObjects h2 ! (cs ! k)))"
      using I6 by (simp add: readRelationshipPattern_def prefix_nth [OF props6 lt])
    also have "\<dots> = seg_relationship (readSegment h2 (cs ! k))"
      by (simp add: hcRel readSegment_def)
    also have "\<dots> = seg_relationship (readSegment h (?as ! k))" by (simp add: s(2))
    finally have rel: "readRelationshipPattern h6 (sgo_relationship (segmentObjects h2 ! (cs ! k))) =
          seg_relationship (readSegment h (?as ! k))" .
    from nodes6 [THEN spec, of "Suc k"] k
    have node: "readNodePattern h6 (?N + Suc k) = enrichNode b (seg_node (readSegment h (?as ! k)))"
      by simp
    note tgt = s(3)
    have so: "segmentObjects h6 = segmentObjects h2" using I6 by (simp add: hcRel(3))
    have "readSegment h6 (cs ! k) =
            \<lparr>seg_relationship = seg_relationship (readSegment h (?as ! k)),
             seg_node = enrichNode b (seg_node (readSegment h (?as ! k)))\<rparr>"
      using node by (simp add: readSegment_def [of h6] so rel tgt)
    also have "\<dots> = enrichSegment b (readSegment h (?as ! k))"
      by (cases "readSegment h (?as ! k)") (simp add: enrichSegment_def)
    finally show "readSegment h6 (cs ! k) = enrichSegment b (readSegment h (?as ! k))" .
  qed
  have segs6: "map (readSegment h6) cs = map (enrichSegment b) (map (readSegment h) ?as)"
    using len seg6 by (simp add: list_eq_iff_nth_eq)
  have result: "readPathPattern h6 ?E =
           \<lparr>pp_start = enrichNode b (pp_start (readPathPattern h pattern)),
            pp_segments = map (enrichSegment b) (pp_segments (readPathPattern h pattern))\<rparr>"
    using I6 by (simp add: readPathPattern_def hcE hcA N(2) start6 segs6)
  from frame heapExtends_pathPattern(2) [OF frame wf] result show ?thesis
    by (simp add: run)
qed

theorem enrichPatternWithBindings_frame_witness:
  "wfPathPattern exampleHeap 0 \<and>
   heapExtends exampleHeap
     (snd (enrichPatternWithBindings 0
        [''n'' \<mapsto> BoundNode (exampleNode ''a'' ''Person''), ''m'' \<mapsto> BoundNode (exampleNode ''b'' ''Person'')]
        exampleHeap)) \<and>
   fst (enrichPatternWithBindings 0
        [''n'' \<mapsto> BoundNode (exampleNode ''a'' ''Person''), ''m'' \<mapsto> BoundNode (exampleNode ''b'' ''Person'')]
        exampleHeap) = 1 \<and>
   readPathPattern
     (snd (enrichPatternWithBindings 0
        [''n'' \<mapsto> BoundNode (exampleNode ''a'' ''Person''), ''m'' \<mapsto> BoundNode (exampleNode ''b'' ''Person'')]
        exampleHeap)) 0 =
     \<lparr>pp_start = \<lparr>np_variable = Some ''n'', np_labels = [''Person''],
                  np_properties = [(''name'', JStr ''Ann'')]\<rparr>,
      pp_segments =
        [\<lparr>seg_relationship = hops None None\<lparr>rp_type := Some ''KNOWS''\<rparr>,
          seg_node = \<lparr>np_variable = Some ''m'', np_labels = [''Person''], np_properties = []\<rparr>\<rparr>]\<rparr> \<and>
   readPathPattern
     (snd (enrichPatternWithBindings 0
        [''n'' \<mapsto> BoundNode (exampleNode ''a'' ''Person''), ''m'' \<mapsto> BoundNode (exampleNode ''b'' ''Person'')]
        exampleHeap)) 1 =
     \<lparr>pp_start = \<lparr>np_variable = Some ''n'', np_labels = [''Person''],
                  np_properties = [(''name'', JStr ''Ann''), (''id'', JStr ''a'')]\<rparr>,
      pp_segments =
        [\<lparr>seg_relationship = hops None None\<lparr>rp_type := Some ''KNOWS''\<rparr>,
          seg_node = \<lparr>np_variable = Some ''m'', np_labels = [''Person''],
                      np_properties = [(''id'', JStr ''b'')]\<rparr>\<rparr>]\<rparr>"
proof -
  let ?b = "[''n'' \<mapsto> BoundNode (exampleNode ''a'' ''Person''), ''m'' \<mapsto> BoundNode (exampleNode ''b'' ''Person'')]"
  have wf: "wfPathPattern exampleHeap 0"
    by (simp add: wfPathPattern_def wfSegment_def wfNodePattern_def wfRelationshipPattern_def
        exampleHeap_def)
  have inp: "readPathPattern exampleHeap 0 =
     \<lparr>pp_start = \<lparr>np_variable = Some ''n'', np_labels = [''Person''],
                  np_properties = [(''name'', JStr ''Ann'')]\<rparr>,
      pp_segments =
        [\<lparr>seg_relationship = hops None None\<lparr>rp_type := Some ''KNOWS''\<rparr>,
          seg_node = \<lparr>np_variable = Some ''m'', np_labels = [''Person''], np_properties = []\<rparr>\<rparr>]\<rparr>"
    by (simp add: readPathPattern_def readSegment_def readNodePattern_def readRelationshipPattern_def
        exampleHeap_def hops_def)
  have len: "length (pathPatterns exampleHeap) = 1" by (simp add: exampleHeap_def)
  note t = enrichPatternWithBindings_frame [OF wf, of ?b]
  note t1 = t [THEN conjunct1]
  note t2 = t [THEN conjunct2, THEN conjunct1, unfolded inp]
  note t3 = t [THEN conjunct2, THEN conjunct2, THEN conjunct1, unfolded len]
  note t4 = t [THEN conjunct2, THEN conjunct2, THEN conjunct2, unfolded t3 inp]
  have "enrichNode ?b \<lparr>np_variable = Some ''n'', np_labels = [''Person''],
                  np_properties = [(''name'', JStr ''Ann'')]\<rparr> =
        \<lparr>np_variable = Some ''n'', np_labels = [''Person''],
                  np_properties = [(''name'', JStr ''Ann''), (''id'', JStr ''a'')]\<rparr>"
    and "enrichNode ?b \<lparr>np_variable = Some ''m'', np_labels = [''Person''], np_properties = []\<rparr> =
         \<lparr>np_variable = Some ''m'', np_labels = [''Person''], np_properties = [(''id'', JStr ''b'')]\<rparr>"
    by (simp_all add: enrichNode_def exampleNode_def)
  with t4 have t5: "readPathPattern (snd (enrichPatternWithBindings 0 ?b exampleHeap)) 1 =
     \<lparr>pp_start = \<lparr>np_variable = Some ''n'', np_labels = [''Person''],
                  np_properties = [(''name'', JStr ''Ann''), (''id'', JStr ''a'')]\<rparr>,
      pp_segments =
        [\<lparr>seg_relationship = hops None None\<lparr>rp_type := Some ''KNOWS''\<rparr>,
          seg_node = \<lparr>np_variable = Some ''m'', np_labels = [''Person''],
                      np_properties = [(''id'', JStr ''b'')]\<rparr>\<rparr>]\<rparr>"
    by (simp add: enrichSegment_def)
  from wf t1 t2 t3 t5 show ?thesis by simp
qed

text \<open>
  C10: with enableTypeCoercion off, a required value that is not an array matches an
  array of scalars (the property values of the data model) if and only if it is
  strictly equal to some element of the array; so it is for a node property and for an
  edge property holding the array.
\<close>

theorem valuesMatch_membership:
  assumes "\<not> enableTypeCoercion opts" and "\<not> isArray expected"
    and "\<forall>item \<in> set items. \<not> isArray item"
  shows "(valuesMatch js opts (JArr items) expected \<longleftrightarrow> (\<exists>item \<in> set items. strictEq item expected)) \<and>
         (key \<noteq> ''id'' \<and> node_data n = Some [(key, JArr items)] \<longrightarrow>
            (nodePropertiesMatch js opts n [(key, expected)] \<longleftrightarrow> (\<exists>item \<in> set items. strictEq item expected))) \<and>
         (edge_data e = Some [(key, JArr items)] \<longrightarrow>
            (edgePropertiesMatch js opts e [(key, expected)] \<longleftrightarrow> (\<exists>item \<in> set items. strictEq item expected)))"
proof -
  have vm: "valuesMatch js opts (JArr items) expected \<longleftrightarrow> (\<exists>item \<in> set items. strictEq item expected)"
    using assms by (simp add: valuesMatch_array valuesMatch_scalar)
  then show ?thesis
    by (simp add: nodePropertiesMatch_def edgePropertiesMatch_def)
qed

theorem valuesMatch_membership_witness:
  "\<not> enableTypeCoercion (options (PatternMatcher noOptions)) \<and> \<not> isArray (JStr ''red'') \<and>
   \<not> isArray (JStr ''blue'') \<and> \<not> isArray (JStr ''red'') \<and>
   valuesMatch exampleBuiltins (options (PatternMatcher noOptions))
     (JArr [JStr ''blue'', JStr ''red'']) (JStr ''red'') \<and>
   \<not> valuesMatch exampleBuiltins (options (PatternMatcher noOptions))
     (JArr [JStr ''blue'', JStr ''red'']) (JStr ''green'')"
proof -
  have a: "\<not> enableTypeCoercion (options (PatternMatcher noOptions))"
    by (simp add: PatternMatcher_def example_defs)
  have c: "\<forall>item \<in> set [JStr ''blue'', JStr ''red'']. \<not> isArray item" by simp
  from valuesMatch_membership [OF a _ c, of "JStr ''red''" exampleBuiltins]
    valuesMatch_membership [OF a _ c, of "JStr ''green''" exampleBuiltins] a
  show ?thesis by simp
qed

end
